theory Spec2Isabelle
  imports Complex_Main "HOL-Library.Word"
begin

section \<open>The synchronisation hub of websocket\_sync.go\<close>

text \<open>
  The theory embeds the Go program \<^verbatim>\<open>websocket_sync.go\<close>: the buffered channel
  \<^verbatim>\<open>Client.Send\<close>, the registry \<^verbatim>\<open>Hub.Clients\<close>, one turn of the loop of
  \<^verbatim>\<open>Hub.Run\<close>, one turn of the loop of \<^verbatim>\<open>Client.readPump\<close>, and the calls of
  \<^verbatim>\<open>encoding/json\<close> that \<^verbatim>\<open>readPump\<close> makes on a \<^verbatim>\<open>WebSocketMessage\<close>.

  A \<^verbatim>\<open>*Client\<close> is an address (a natural number) into a heap of \<^verbatim>\<open>Client\<close> structs;
  an address the heap does not hold plays the role of the nil pointer. What Go makes a
  run-time panic is a value of type \<open>panic\<close>, returned on the left of a sum.
\<close>

subsection \<open>Buffered channels\<close>

text \<open>
  \<^verbatim>\<open>make(chan []byte, n)\<close>: a FIFO buffer of capacity \<open>n\<close> and the closed flag.
  Only the three operations the program uses are modelled: the send inside a
  \<^verbatim>\<open>select\<close> with a \<^verbatim>\<open>default\<close> branch, \<^verbatim>\<open>close\<close>, and the receive of \<^verbatim>\<open>writePump\<close>.
\<close>

record 'm chan =
  buf :: "'m list"
  cap :: nat
  closed :: bool

datatype panic = SendOnClosedChannel | CloseOfClosedChannel | NilPointerDereference

definition make_chan :: "nat \<Rightarrow> 'm chan" where
  "make_chan n = \<lparr>buf = [], cap = n, closed = False\<rparr>"

text \<open>
  The outcome of \<^verbatim>\<open>select { case ch <- m: ... default: ... }\<close>. A send on a closed
  channel is always ready and panics; on an open channel the send proceeds when the
  buffer has room, and otherwise the \<^verbatim>\<open>default\<close> branch is taken.
\<close>

datatype 'm select_send = Panics | Sent "'m chan" | Default

definition try_send :: "'m \<Rightarrow> 'm chan \<Rightarrow> 'm select_send" where
  "try_send m ch =
     (if closed ch then Panics
      else if length (buf ch) < cap ch then Sent (ch\<lparr>buf := buf ch @ [m]\<rparr>)
      else Default)"

definition close_chan :: "'m chan \<Rightarrow> panic + 'm chan" where
  "close_chan ch = (if closed ch then Inl CloseOfClosedChannel else Inr (ch\<lparr>closed := True\<rparr>))"

subsection \<open>Clients and the hub\<close>

text \<open>
  \<^verbatim>\<open>type Client struct { ID string; Socket *websocket.Conn; Send chan []byte; UserID string }\<close>.
  The socket belongs to the transport and is left out. The field \<^verbatim>\<open>UserID\<close> is called
  \<open>ClientUserID\<close> here, since the message struct has a field of the same name.
\<close>

record 'm Client =
  ID :: string
  Send :: "'m chan"
  ClientUserID :: string

text \<open>
  \<^verbatim>\<open>type Hub struct { Clients map[*Client]bool; Broadcast, Register, Unregister chan ... }\<close>.
  The three unbuffered channels of the hub are rendezvous points: what is received from
  them is the \<open>event\<close> that \<^verbatim>\<open>Run\<close> serves. The state is the registry and the heap.
\<close>

record 'm hub =
  Clients :: "nat \<rightharpoonup> bool"
  heap :: "nat \<rightharpoonup> 'm Client"

datatype 'm event = Register nat | Unregister nat | Broadcast 'm

definition NewHub :: "'m hub" where
  "NewHub = \<lparr>Clients = Map.empty, heap = Map.empty\<rparr>"

text \<open>\<^verbatim>\<open>close(client.Send)\<close> on the heap.\<close>

definition close_Send :: "nat \<Rightarrow> 'm hub \<Rightarrow> panic + 'm hub" where
  "close_Send c h =
     (case heap h c of
        None \<Rightarrow> Inl NilPointerDereference
      | Some cl \<Rightarrow>
          (case close_chan (Send cl) of
             Inl p \<Rightarrow> Inl p
           | Inr ch \<Rightarrow> Inr (h\<lparr>heap := (heap h)(c \<mapsto> cl\<lparr>Send := ch\<rparr>)\<rparr>)))"

text \<open>\<^verbatim>\<open>delete(h.Clients, client)\<close>.\<close>

definition delete_Clients :: "nat \<Rightarrow> 'm hub \<Rightarrow> 'm hub" where
  "delete_Clients c h = h\<lparr>Clients := (Clients h)(c := None)\<rparr>"

text \<open>
  The body of \<^verbatim>\<open>for client := range h.Clients\<close> (lines 75 to 80) for one client:
  the non-blocking send, and in the \<^verbatim>\<open>default\<close> branch \<^verbatim>\<open>close\<close> followed by
  \<^verbatim>\<open>delete\<close>.
\<close>

definition range_body :: "'m \<Rightarrow> nat \<Rightarrow> 'm hub \<Rightarrow> panic + 'm hub" where
  "range_body message c h =
     (case heap h c of
        None \<Rightarrow> Inl NilPointerDereference
      | Some cl \<Rightarrow>
          (case try_send message (Send cl) of
             Panics \<Rightarrow> Inl SendOnClosedChannel
           | Sent ch \<Rightarrow> Inr (h\<lparr>heap := (heap h)(c \<mapsto> cl\<lparr>Send := ch\<rparr>)\<rparr>)
           | Default \<Rightarrow>
               (case close_Send c h of
                  Inl p \<Rightarrow> Inl p
                | Inr h' \<Rightarrow> Inr (delete_Clients c h'))))"

text \<open>
  The \<^verbatim>\<open>range\<close> loop. Go leaves the order of a map iteration unspecified, so the order
  is an argument: the list of keys in the order the run time visits them. The loop
  deletes only the entry it is visiting, so it visits every key the map had when it
  started, once (\<open>iteration_order\<close>). A panic ends the loop.
\<close>

fun range_Clients :: "'m \<Rightarrow> nat list \<Rightarrow> 'm hub \<Rightarrow> panic + 'm hub" where
  "range_Clients message [] h = Inr h"
| "range_Clients message (c # cs) h =
     (case range_body message c h of
        Inl p \<Rightarrow> Inl p
      | Inr h' \<Rightarrow> range_Clients message cs h')"

definition iteration_order :: "nat list \<Rightarrow> 'm hub \<Rightarrow> bool" where
  "iteration_order order h \<longleftrightarrow> distinct order \<and> set order = dom (Clients h)"

text \<open>
  One turn of the \<^verbatim>\<open>for { select { ... } }\<close> of \<^verbatim>\<open>Hub.Run\<close> (lines 64 to 83), on the
  event received. \<open>order\<close> is used by the broadcast case only.
\<close>

fun Run :: "nat list \<Rightarrow> 'm event \<Rightarrow> 'm hub \<Rightarrow> panic + 'm hub" where
  "Run order (Register client) h = Inr (h\<lparr>Clients := (Clients h)(client \<mapsto> True)\<rparr>)"
| "Run order (Unregister client) h =
     (case Clients h client of
        Some ok \<Rightarrow>
          (case close_Send client (delete_Clients client h) of
             Inl p \<Rightarrow> Inl p
           | Inr h' \<Rightarrow> Inr h')
      | None \<Rightarrow> Inr h)"
| "Run order (Broadcast message) h = range_Clients message order h"

subsection \<open>The wire format: encoding/json on a WebSocketMessage\<close>

text \<open>
  \<^verbatim>\<open>type WebSocketMessage struct\<close> with its tags: \<^verbatim>\<open>type\<close>, \<^verbatim>\<open>user_id,omitempty\<close>,
  \<^verbatim>\<open>song_id,omitempty\<close>, \<^verbatim>\<open>position,omitempty\<close>, \<^verbatim>\<open>volume,omitempty\<close>, \<^verbatim>\<open>timestamp\<close>.
  \<^verbatim>\<open>MessageType\<close> is a string type: the five constants of the source name some of its
  values and restrict nothing. \<^verbatim>\<open>int64\<close> is a signed 64-bit word. A \<^verbatim>\<open>float64\<close> is
  kept as the real number it denotes (every float that \<^verbatim>\<open>json.Unmarshal\<close> stores is
  finite); the sign of zero is outside the model.
\<close>

record WebSocketMessage =
  Type :: string
  UserID :: string
  SongID :: string
  Position :: real
  Volume :: real
  Timestamp :: "64 word"

definition PlayMessage :: string where "PlayMessage = ''play''"
definition PauseMessage :: string where "PauseMessage = ''pause''"
definition SeekMessage :: string where "SeekMessage = ''seek''"
definition VolumeMessage :: string where "VolumeMessage = ''volume''"
definition PlaylistMessage :: string where "PlaylistMessage = ''playlist''"

text \<open>The zero value of the struct, what \<^verbatim>\<open>var msg WebSocketMessage\<close> declares.\<close>

definition zero_message :: WebSocketMessage where
  "zero_message = \<lparr>Type = [], UserID = [], SongID = [], Position = 0, Volume = 0, Timestamp = 0\<rparr>"

text \<open>
  A JSON value as the scanner of \<^verbatim>\<open>encoding/json\<close> delivers it. A number literal is
  kept as the two readings the decoder can take of its text: the integer it denotes
  when it is written in integer syntax, and otherwise \<open>None\<close> (the literals for which
  \<^verbatim>\<open>strconv.ParseInt\<close> reports a syntax error); and the \<^verbatim>\<open>float64\<close> that
  \<^verbatim>\<open>strconv.ParseFloat\<close> returns for it, rounded as \<^verbatim>\<open>ParseFloat\<close> rounds, or \<open>None\<close>
  when \<^verbatim>\<open>ParseFloat\<close> reports a range error. A string is the Go string the decoder
  unquotes, as its UTF-8 bytes. The members of an object are kept in the order of the
  text, duplicates included. A \<^verbatim>\<open>[]byte\<close> payload is either a text that the scanner
  rejects (\<open>NotJSON\<close>) or the text of one value.
\<close>

datatype json =
    JNull
  | JBool bool
  | JNumber "int option" "real option"
  | JString string
  | JArray "json list"
  | JObject "(string \<times> json) list"

text \<open>
  The second reading of a literal in integer syntax: the integer \<open>n\<close> rounded to the
  nearest \<^verbatim>\<open>float64\<close>, ties to the even mantissa, and a range error when the rounded
  value is \<open>2\<^sup>1\<^sup>0\<^sup>2\<^sup>4\<close> or more in size. \<open>scale a\<close> is the weight of the last of the 53
  leading bits of \<open>a\<close>.
\<close>

function scale :: "int \<Rightarrow> int" where
  "scale a = (if a < 2 ^ 53 then 1 else 2 * scale (a div 2))"
  by pat_completeness auto
termination
  by (relation "measure nat") auto

declare scale.simps [simp del]

definition float64_of_int :: "int \<Rightarrow> real option" where
  "float64_of_int n =
     (let p = scale \<bar>n\<bar>; q = \<bar>n\<bar> div p; r = \<bar>n\<bar> mod p;
          q' = (if p < 2 * r \<or> (2 * r = p \<and> odd q) then q + 1 else q);
          v = q' * p
      in if 2 ^ 1024 \<le> v then None else Some (of_int (sgn n * v)))"

definition integer_literal :: "int \<Rightarrow> json" where
  "integer_literal n = JNumber (Some n) (float64_of_int n)"

datatype bytes = NotJSON | JSON json

datatype error = SyntaxError | UnmarshalTypeError string

text \<open>
  What a JSON value does to a struct field of a given Go kind: \<^verbatim>\<open>null\<close> leaves the
  field as it is, a value of the right kind is stored, anything else is an
  \<^verbatim>\<open>UnmarshalTypeError\<close>. An \<^verbatim>\<open>int64\<close> field takes the literals in integer syntax
  that lie in the range of \<^verbatim>\<open>int64\<close> (\<^verbatim>\<open>strconv.ParseInt\<close>); a \<^verbatim>\<open>float64\<close> field takes
  the number literals for which \<^verbatim>\<open>strconv.ParseFloat\<close> reports no range error.
\<close>

datatype 'a literal = Keep | Store 'a | Mismatch

fun as_string :: "json \<Rightarrow> string literal" where
  "as_string JNull = Keep"
| "as_string (JString s) = Store s"
| "as_string _ = Mismatch"

fun as_float64 :: "json \<Rightarrow> real literal" where
  "as_float64 JNull = Keep"
| "as_float64 (JNumber i (Some x)) = Store x"
| "as_float64 _ = Mismatch"

fun as_int64 :: "json \<Rightarrow> 64 word literal" where
  "as_int64 JNull = Keep"
| "as_int64 (JNumber (Some n) x) =
     (if - (2 ^ 63) \<le> n \<and> n < 2 ^ 63 then Store (word_of_int n) else Mismatch)"
| "as_int64 _ = Mismatch"

text \<open>
  A key of the input selects the field whose tag it equals under Unicode simple case
  folding (\<^verbatim>\<open>bytes.EqualFold\<close>); the tags of this struct are lower-case ASCII and differ
  from one another. Besides the ASCII capitals, two characters fold to an ASCII letter:
  U+017F (long s, the bytes C5 BF) to \<open>s\<close> and U+212A (Kelvin sign, the bytes E2 84 AA)
  to \<open>k\<close>. A code from 65 to 90 has the bit of weight 32 clear, and setting it adds 32.
\<close>

definition lower :: "char \<Rightarrow> char" where
  "lower c =
     (if 65 \<le> (of_char c :: nat) \<and> (of_char c :: nat) \<le> 90
      then (case c of Char b0 b1 b2 b3 b4 b5 b6 b7 \<Rightarrow> Char b0 b1 b2 b3 b4 True b6 b7)
      else c)"

fun fold_key :: "string \<Rightarrow> string" where
  "fold_key [] = []"
| "fold_key (c # cs) =
     (if c = CHR 0xC5 \<and> take 1 cs = [CHR 0xBF] then CHR ''s'' # fold_key (drop 1 cs)
      else if c = CHR 0xE2 \<and> take 2 cs = [CHR 0x84, CHR 0xAA]
        then CHR ''k'' # fold_key (drop 2 cs)
      else lower c # fold_key cs)"

datatype field = FType | FUserID | FSongID | FPosition | FVolume | FTimestamp

definition field_of :: "string \<Rightarrow> field option" where
  "field_of key =
     (let k = fold_key key in
      if k = ''type'' then Some FType
      else if k = ''user_id'' then Some FUserID
      else if k = ''song_id'' then Some FSongID
      else if k = ''position'' then Some FPosition
      else if k = ''volume'' then Some FVolume
      else if k = ''timestamp'' then Some FTimestamp
      else None)"

definition tag :: "field \<Rightarrow> string" where
  "tag f = (case f of FType \<Rightarrow> ''type'' | FUserID \<Rightarrow> ''user_id'' | FSongID \<Rightarrow> ''song_id''
            | FPosition \<Rightarrow> ''position'' | FVolume \<Rightarrow> ''volume'' | FTimestamp \<Rightarrow> ''timestamp'')"

text \<open>
  The decoder's state while it walks an object: the struct so far and the first error
  saved (\<^verbatim>\<open>d.saveError\<close> keeps the first one and the walk goes on).
\<close>

definition store :: "field \<Rightarrow> 'a literal \<Rightarrow> ('a \<Rightarrow> WebSocketMessage) \<Rightarrow>
    WebSocketMessage \<times> error option \<Rightarrow> WebSocketMessage \<times> error option" where
  "store f l upd st =
     (case l of
        Keep \<Rightarrow> st
      | Store v \<Rightarrow> (upd v, snd st)
      | Mismatch \<Rightarrow>
          (fst st, (case snd st of None \<Rightarrow> Some (UnmarshalTypeError (tag f)) | Some e \<Rightarrow> Some e)))"

definition object_member :: "WebSocketMessage \<times> error option \<Rightarrow> string \<times> json \<Rightarrow>
    WebSocketMessage \<times> error option" where
  "object_member st kv =
     (let msg = fst st; v = snd kv in
      case field_of (fst kv) of
        None \<Rightarrow> st
      | Some FType \<Rightarrow> store FType (as_string v) (\<lambda>s. msg\<lparr>Type := s\<rparr>) st
      | Some FUserID \<Rightarrow> store FUserID (as_string v) (\<lambda>s. msg\<lparr>UserID := s\<rparr>) st
      | Some FSongID \<Rightarrow> store FSongID (as_string v) (\<lambda>s. msg\<lparr>SongID := s\<rparr>) st
      | Some FPosition \<Rightarrow> store FPosition (as_float64 v) (\<lambda>x. msg\<lparr>Position := x\<rparr>) st
      | Some FVolume \<Rightarrow> store FVolume (as_float64 v) (\<lambda>x. msg\<lparr>Volume := x\<rparr>) st
      | Some FTimestamp \<Rightarrow> store FTimestamp (as_int64 v) (\<lambda>t. msg\<lparr>Timestamp := t\<rparr>) st)"

text \<open>
  \<^verbatim>\<open>json.Unmarshal(message, &msg)\<close>: a syntax error for a payload that is no JSON
  text; \<^verbatim>\<open>null\<close> changes nothing and is no error; an object is walked member by
  member; any other value cannot be stored in a struct.
\<close>

definition Unmarshal :: "bytes \<Rightarrow> WebSocketMessage \<Rightarrow> error + WebSocketMessage" where
  "Unmarshal message msg =
     (case message of
        NotJSON \<Rightarrow> Inl SyntaxError
      | JSON JNull \<Rightarrow> Inr msg
      | JSON (JObject members) \<Rightarrow>
          (case foldl object_member (msg, None) members of
             (msg', None) \<Rightarrow> Inr msg'
           | (msg', Some e) \<Rightarrow> Inl e)
      | JSON _ \<Rightarrow> Inl (UnmarshalTypeError []))"

text \<open>
  The members of an object that make \<^verbatim>\<open>json.Unmarshal\<close> report an error: those whose key
  selects a field and whose value is of the wrong kind for it.
\<close>

definition rejects :: "string \<times> json \<Rightarrow> bool" where
  "rejects kv =
     (case field_of (fst kv) of
        None \<Rightarrow> False
      | Some FType \<Rightarrow> as_string (snd kv) = Mismatch
      | Some FUserID \<Rightarrow> as_string (snd kv) = Mismatch
      | Some FSongID \<Rightarrow> as_string (snd kv) = Mismatch
      | Some FPosition \<Rightarrow> as_float64 (snd kv) = Mismatch
      | Some FVolume \<Rightarrow> as_float64 (snd kv) = Mismatch
      | Some FTimestamp \<Rightarrow> as_int64 (snd kv) = Mismatch)"

text \<open>
  \<^verbatim>\<open>json.Marshal(msg)\<close>: the fields in the order of the struct, a field tagged
  \<^verbatim>\<open>omitempty\<close> left out when it is the empty string or zero. A float is written as the
  shortest literal that \<^verbatim>\<open>ParseFloat\<close> reads back as the same float; the literal is in
  integer syntax when the float is integral and below \<open>10\<^sup>2\<^sup>1\<close> in size, and has a
  fraction or an exponent otherwise.
\<close>

definition float64_literal :: "real \<Rightarrow> json" where
  "float64_literal x =
     JNumber (if of_int \<lfloor>x\<rfloor> = x \<and> \<bar>x\<bar> < 10 ^ 21 then Some \<lfloor>x\<rfloor> else None) (Some x)"

definition Marshal :: "WebSocketMessage \<Rightarrow> bytes" where
  "Marshal msg = JSON (JObject (
       [(''type'', JString (Type msg))]
     @ (if UserID msg = [] then [] else [(''user_id'', JString (UserID msg))])
     @ (if SongID msg = [] then [] else [(''song_id'', JString (SongID msg))])
     @ (if Position msg = 0 then [] else [(''position'', float64_literal (Position msg))])
     @ (if Volume msg = 0 then [] else [(''volume'', float64_literal (Volume msg))])
     @ [(''timestamp'', integer_literal (sint (Timestamp msg)))]))"

subsection \<open>readPump, writePump, ServeWebSocket and the senders\<close>

text \<open>
  Lines 103 to 112 of \<^verbatim>\<open>readPump\<close>: unmarshal into a fresh struct, then
  \<^verbatim>\<open>if msg.Timestamp == 0 { msg.Timestamp = time.Now().Unix() }\<close>. \<open>now\<close> is the value
  \<^verbatim>\<open>time.Now().Unix()\<close> returns.
\<close>

definition add_timestamp :: "64 word \<Rightarrow> WebSocketMessage \<Rightarrow> WebSocketMessage" where
  "add_timestamp now msg = (if Timestamp msg = 0 then msg\<lparr>Timestamp := now\<rparr> else msg)"

definition readPump_decode :: "64 word \<Rightarrow> bytes \<Rightarrow> error + WebSocketMessage" where
  "readPump_decode now message =
     (case Unmarshal message zero_message of
        Inl err \<Rightarrow> Inl err
      | Inr msg \<Rightarrow> Inr (add_timestamp now msg))"

text \<open>
  Lines 102 to 116: what one frame read from the socket makes \<^verbatim>\<open>readPump\<close> send on
  \<^verbatim>\<open>hub.Broadcast\<close>. On an unmarshalling error the frame is logged and skipped
  (\<^verbatim>\<open>continue\<close>): nothing is sent.
\<close>

definition readPump_message :: "64 word \<Rightarrow> bytes \<Rightarrow> bytes option" where
  "readPump_message now message =
     (case readPump_decode now message of
        Inl err \<Rightarrow> None
      | Inr msg \<Rightarrow> Some (Marshal msg))"

text \<open>
  One turn of the loop of \<^verbatim>\<open>readPump\<close> of client \<open>c\<close> together with the hub's service
  of the broadcast it sends. The loop body never uses \<open>c\<close> beyond reading its socket: the
  payload carries no sender and \<^verbatim>\<open>hub.Broadcast\<close> is a \<^verbatim>\<open>chan []byte\<close>.
\<close>

definition readPump :: "nat \<Rightarrow> 64 word \<Rightarrow> bytes \<Rightarrow> nat list \<Rightarrow> bytes hub \<Rightarrow> panic + bytes hub" where
  "readPump c now message order h =
     (case readPump_message now message of
        None \<Rightarrow> Inr h
      | Some broadcastMsg \<Rightarrow> Run order (Broadcast broadcastMsg) h)"

text \<open>
  \<^verbatim>\<open>ServeWebSocket\<close>: a new \<^verbatim>\<open>Client\<close> with \<^verbatim>\<open>Send: make(chan []byte, 256)\<close> at the
  address \<open>c\<close> the allocator returns, sent on \<^verbatim>\<open>hub.Register\<close>.
\<close>

definition ServeWebSocket :: "nat \<Rightarrow> string \<Rightarrow> 'm hub \<Rightarrow> panic + 'm hub" where
  "ServeWebSocket c user h =
     Run [] (Register c)
       (h\<lparr>heap := (heap h)(c \<mapsto> \<lparr>ID = [], Send = make_chan 256, ClientUserID = user\<rparr>)\<rparr>)"

text \<open>
  The receive \<^verbatim>\<open>message, ok := <-c.Send\<close> of \<^verbatim>\<open>writePump\<close>: the oldest buffered
  message leaves the channel; on an empty channel nothing changes (the receive blocks,
  or returns \<^verbatim>\<open>ok = false\<close> when the channel is closed).
\<close>

definition writePump :: "nat \<Rightarrow> 'm hub \<Rightarrow> 'm hub" where
  "writePump c h =
     (case heap h c of
        None \<Rightarrow> h
      | Some cl \<Rightarrow> h\<lparr>heap := (heap h)(c \<mapsto> cl\<lparr>Send := (Send cl)\<lparr>buf := tl (buf (Send cl))\<rparr>\<rparr>)\<rparr>)"

text \<open>\<^verbatim>\<open>SendPlaySync\<close> and \<^verbatim>\<open>SendPauseSync\<close>, with the hub's service of the broadcast.\<close>

definition SendPlaySync :: "64 word \<Rightarrow> string \<Rightarrow> string \<Rightarrow> real \<Rightarrow> nat list \<Rightarrow> bytes hub \<Rightarrow>
    panic + bytes hub" where
  "SendPlaySync now userID songID position order h =
     Run order (Broadcast (Marshal \<lparr>Type = PlayMessage, UserID = userID, SongID = songID,
       Position = position, Volume = 0, Timestamp = now\<rparr>)) h"

definition SendPauseSync :: "64 word \<Rightarrow> string \<Rightarrow> real \<Rightarrow> nat list \<Rightarrow> bytes hub \<Rightarrow>
    panic + bytes hub" where
  "SendPauseSync now userID position order h =
     Run order (Broadcast (Marshal \<lparr>Type = PauseMessage, UserID = userID, SongID = [],
       Position = position, Volume = 0, Timestamp = now\<rparr>)) h"

subsection \<open>The program as a transition system\<close>

text \<open>
  What the goroutines of the program make the hub do, one action at a time. The hub
  serves one event per turn of its loop. A receive by a \<^verbatim>\<open>writePump\<close> that falls inside
  the \<^verbatim>\<open>range\<close> loop of a broadcast touches the channel of one client only, which the
  loop visits once: it has the effect of the same receive just before the broadcast (when
  the loop has not reached that client yet) or just after it. So a broadcast is one
  action here.
  \<^item> \<open>Connect c user\<close>: \<^verbatim>\<open>ServeWebSocket\<close> allocates a client at the unused address \<open>c\<close>
    and registers it;
  \<^item> \<open>Frame c now message order\<close>: the \<^verbatim>\<open>readPump\<close> of client \<open>c\<close> reads a frame;
  \<^item> \<open>Disconnect c\<close>: the \<^verbatim>\<open>readPump\<close> of client \<open>c\<close> leaves its loop and its deferred
    function sends \<open>c\<close> on \<^verbatim>\<open>hub.Unregister\<close>;
  \<^item> \<open>Drain c\<close>: the \<^verbatim>\<open>writePump\<close> of client \<open>c\<close> receives from \<^verbatim>\<open>c.Send\<close>;
  \<^item> \<open>PlaySync\<close>, \<open>PauseSync\<close>: a call of \<^verbatim>\<open>SendPlaySync\<close>, \<^verbatim>\<open>SendPauseSync\<close>.
\<close>

datatype action =
    Connect nat string
  | Frame nat "64 word" bytes "nat list"
  | Disconnect nat
  | Drain nat
  | PlaySync "64 word" string string real "nat list"
  | PauseSync "64 word" string real "nat list"

fun step :: "action \<Rightarrow> bytes hub \<Rightarrow> panic + bytes hub" where
  "step (Connect c user) h = ServeWebSocket c user h"
| "step (Frame c now message order) h = readPump c now message order h"
| "step (Disconnect c) h = Run [] (Unregister c) h"
| "step (Drain c) h = Inr (writePump c h)"
| "step (PlaySync now userID songID position order) h =
     SendPlaySync now userID songID position order h"
| "step (PauseSync now userID position order) h = SendPauseSync now userID position order h"

text \<open>
  When an action can happen: the allocator returns an address not in use, a pump
  belongs to a client that exists, and a broadcast is served in some iteration order of
  the registry.
\<close>

fun enabled :: "action \<Rightarrow> bytes hub \<Rightarrow> bool" where
  "enabled (Connect c user) h \<longleftrightarrow> heap h c = None"
| "enabled (Frame c now message order) h \<longleftrightarrow> heap h c \<noteq> None \<and> iteration_order order h"
| "enabled (Disconnect c) h \<longleftrightarrow> heap h c \<noteq> None"
| "enabled (Drain c) h \<longleftrightarrow> heap h c \<noteq> None"
| "enabled (PlaySync now userID songID position order) h \<longleftrightarrow> iteration_order order h"
| "enabled (PauseSync now userID position order) h \<longleftrightarrow> iteration_order order h"

text \<open>A run of the program from a state; a panic ends it.\<close>

fun run :: "action list \<Rightarrow> bytes hub \<Rightarrow> panic + bytes hub" where
  "run [] h = Inr h"
| "run (a # as) h = (case step a h of Inl p \<Rightarrow> Inl p | Inr h' \<Rightarrow> run as h')"

fun admissible :: "action list \<Rightarrow> bytes hub \<Rightarrow> bool" where
  "admissible [] h \<longleftrightarrow> True"
| "admissible (a # as) h \<longleftrightarrow>
     enabled a h \<and> (case step a h of Inl p \<Rightarrow> True | Inr h' \<Rightarrow> admissible as h')"

subsection \<open>Observations and the invariant\<close>

definition queue :: "'m hub \<Rightarrow> nat \<Rightarrow> 'm list" where
  "queue h c = (case heap h c of None \<Rightarrow> [] | Some cl \<Rightarrow> buf (Send cl))"

definition is_closed :: "'m hub \<Rightarrow> nat \<Rightarrow> bool" where
  "is_closed h c = (case heap h c of None \<Rightarrow> False | Some cl \<Rightarrow> closed (Send cl))"

text \<open>
  Every key of the registry maps to \<^verbatim>\<open>true\<close> and is the address of a client whose
  \<^verbatim>\<open>Send\<close> channel is open, has capacity 256 and holds at most 256 messages.
\<close>

definition client_ok :: "'m hub \<Rightarrow> nat \<Rightarrow> bool" where
  "client_ok h c \<longleftrightarrow>
     Clients h c = Some True \<and>
     (case heap h c of
        None \<Rightarrow> False
      | Some cl \<Rightarrow> \<not> closed (Send cl) \<and> cap (Send cl) = 256 \<and> length (buf (Send cl)) \<le> 256)"

definition hub_inv :: "'m hub \<Rightarrow> bool" where
  "hub_inv h \<longleftrightarrow> (\<forall>c \<in> dom (Clients h). client_ok h c)"

text \<open>
  What one action may do to the hub: the invariant holds afterwards, a closed channel
  stays closed, and a channel is closed only as its client leaves the registry.
\<close>

definition step_ok :: "'m hub \<Rightarrow> 'm hub \<Rightarrow> bool" where
  "step_ok h h' \<longleftrightarrow> hub_inv h' \<and>
     (\<forall>c. is_closed h c \<longrightarrow> is_closed h' c) \<and>
     (\<forall>c. \<not> is_closed h c \<and> is_closed h' c \<longrightarrow> Clients h c \<noteq> None \<and> Clients h' c = None)"

subsection \<open>What the specification asks for, in its own words\<close>

text \<open>
  The freshness policy of the specification (``a message is accepted if
  \<open>now - message.timestamp <= 5 seconds\<close>'') and its list of message kinds. Neither is
  taken from the source; they serve to compare the source with the specification.
\<close>

definition spec_accept :: "64 word \<Rightarrow> 64 word \<Rightarrow> bool" where
  "spec_accept now timestamp \<longleftrightarrow> sint now - sint timestamp \<le> 5"


subsection \<open>Example states and payloads\<close>

text \<open>Two registered clients with empty queues, as two calls of \<^verbatim>\<open>ServeWebSocket\<close> leave them.\<close>

definition hub_two :: "bytes hub" where
  "hub_two =
     \<lparr>Clients = [1 \<mapsto> True, 2 \<mapsto> True],
      heap = [1 \<mapsto> \<lparr>ID = [], Send = make_chan 256, ClientUserID = ''alice''\<rparr>,
              2 \<mapsto> \<lparr>ID = [], Send = make_chan 256, ClientUserID = ''bob''\<rparr>]\<rparr>"

text \<open>\<^verbatim>\<open>{"type":"play","song_id":"42","timestamp":1}\<close> and the struct it decodes to.\<close>

definition play_frame :: bytes where
  "play_frame = JSON (JObject [(''type'', JString ''play''), (''song_id'', JString ''42''),
     (''timestamp'', integer_literal 1)])"

definition play_message :: WebSocketMessage where
  "play_message = \<lparr>Type = ''play'', UserID = [], SongID = ''42'', Position = 0, Volume = 0,
     Timestamp = 1\<rparr>"




text \<open>\<^verbatim>\<open>{"type":"pause","position":1.5}\<close>, without a timestamp.\<close>

definition pause_frame :: bytes where
  "pause_frame = JSON (JObject [(''type'', JString ''pause''), (''position'', JNumber None (Some (3 / 2)))])"

text \<open>\<^verbatim>\<open>{"type":"pause","position":1.5}\<close> decoded at time 1000.\<close>

definition pause_message :: WebSocketMessage where
  "pause_message = \<lparr>Type = ''pause'', UserID = [], SongID = [], Position = 3 / 2, Volume = 0,
     Timestamp = 1000\<rparr>"


text \<open>An object whose only key is \<open>timestamp\<close> spelt with U+017F for the \<open>s\<close>, with value 7.\<close>

definition long_s_frame :: bytes where
  "long_s_frame = JSON (JObject
     [([CHR ''t'', CHR ''i'', CHR ''m'', CHR ''e'', CHR 0xC5, CHR 0xBF, CHR ''t'', CHR ''a'',
        CHR ''m'', CHR ''p''], integer_literal 7)])"

text \<open>
  A run: two clients connect, the first sends \<open>play_frame\<close> at time 1000, the second
  disconnects and its deregistration is signalled twice.
\<close>

definition example_run :: "action list" where
  "example_run = [Connect 1 ''alice'', Connect 2 ''bob'', Frame 1 1000 play_frame [2, 1],
     Disconnect 2, Disconnect 2]"

text \<open>
  A run that saturates the queue of client 1: clients 1 and 2 connect; then, \<open>n\<close> times,
  client 2 sends \<open>play_frame\<close> and the \<^verbatim>\<open>writePump\<close> of client 2 takes its copy from the
  queue, while nothing drains the queue of client 1. \<open>flooded k h\<close> describes the state
  after \<open>k\<close> rounds.
\<close>

definition flood_round :: "action list" where
  "flood_round = [Frame 2 1000 play_frame [2, 1], Drain 2]"

definition flood_run :: "nat \<Rightarrow> action list" where
  "flood_run n = [Connect 1 ''alice'', Connect 2 ''bob''] @ concat (replicate n flood_round)"

definition flooded :: "nat \<Rightarrow> bytes hub \<Rightarrow> bool" where
  "flooded k h \<longleftrightarrow>
     hub_inv h \<and> dom (Clients h) = {1, 2} \<and> queue h 2 = [] \<and>
     queue h 1 = replicate k (Marshal play_message)"

text \<open>The state that 256 rounds of the flooding run lead to.\<close>

definition hub_saturated :: "bytes hub" where
  "hub_saturated = projr (run (flood_run 256) NewHub)"

text \<open>
  A run that saturates both queues: clients 1 and 2 connect, then client 2 sends
  \<open>play_frame\<close> \<open>n\<close> times and no \<^verbatim>\<open>writePump\<close> receives anything. \<open>jammed k h\<close>
  describes the state after \<open>k\<close> frames, and \<open>hub_jammed\<close> is the state after 256.
\<close>

definition jam_run :: "nat \<Rightarrow> action list" where
  "jam_run n = [Connect 1 ''alice'', Connect 2 ''bob''] @ replicate n (Frame 2 1000 play_frame [2, 1])"

definition jammed :: "nat \<Rightarrow> bytes hub \<Rightarrow> bool" where
  "jammed k h \<longleftrightarrow>
     hub_inv h \<and> dom (Clients h) = {1, 2} \<and>
     queue h 1 = replicate k (Marshal play_message) \<and>
     queue h 2 = replicate k (Marshal play_message)"

definition hub_jammed :: "bytes hub" where
  "hub_jammed = projr (run (jam_run 256) NewHub)"

section \<open>Properties\<close>

subsection \<open>The fan-out loop\<close>

lemma range_body_room:
  assumes "client_ok h c" "length (queue h c) < 256"
  shows "\<exists>h'. range_body m c h = Inr h' \<and> Clients h' = Clients h \<and>
           queue h' c = queue h c @ [m] \<and> client_ok h' c \<and>
           (\<forall>d. d \<noteq> c \<longrightarrow> heap h' d = heap h d)"
  using assms
  by (auto simp: client_ok_def queue_def range_body_def try_send_def split: option.splits)

lemma range_body_full:
  assumes "client_ok h c" "\<not> length (queue h c) < 256"
  shows "\<exists>h'. range_body m c h = Inr h' \<and> Clients h' = (Clients h)(c := None) \<and>
           queue h' c = queue h c \<and> is_closed h' c \<and>
           (\<forall>d. d \<noteq> c \<longrightarrow> heap h' d = heap h d)"
  using assms
  by (auto simp: client_ok_def queue_def is_closed_def range_body_def try_send_def close_Send_def
        close_chan_def delete_Clients_def split: option.splits)

lemma client_ok_cong:
  "heap h' d = heap h d \<Longrightarrow> Clients h' d = Clients h d \<Longrightarrow> client_ok h' d = client_ok h d"
  by (simp add: client_ok_def)

lemma queue_cong: "heap h' d = heap h d \<Longrightarrow> queue h' d = queue h d"
  by (simp add: queue_def)

lemma is_closed_cong: "heap h' d = heap h d \<Longrightarrow> is_closed h' d = is_closed h d"
  by (simp add: is_closed_def)

lemma client_ok_open: "client_ok h c \<Longrightarrow> \<not> is_closed h c"
  by (auto simp: client_ok_def is_closed_def split: option.splits)

lemma range_Clients_spec:
  assumes "distinct cs" "\<forall>c \<in> set cs. client_ok h c"
  shows "\<exists>h'. range_Clients m cs h = Inr h' \<and>
      (\<forall>c. c \<notin> set cs \<longrightarrow> heap h' c = heap h c \<and> Clients h' c = Clients h c) \<and>
      (\<forall>c \<in> set cs. length (queue h c) < 256 \<longrightarrow>
          queue h' c = queue h c @ [m] \<and> client_ok h' c) \<and>
      (\<forall>c \<in> set cs. \<not> length (queue h c) < 256 \<longrightarrow>
          queue h' c = queue h c \<and> is_closed h' c \<and> Clients h' c = None)"
  using assms
proof (induction cs arbitrary: h)
  case Nil
  then show ?case by simp
next
  case (Cons c cs)
  have okc: "client_ok h c" using Cons.prems by simp
  have notin: "c \<notin> set cs" and dist: "distinct cs" using Cons.prems by simp_all
  have "\<exists>h1. range_body m c h = Inr h1 \<and>
      (\<forall>d. d \<noteq> c \<longrightarrow> heap h1 d = heap h d \<and> Clients h1 d = Clients h d) \<and>
      (length (queue h c) < 256 \<longrightarrow> queue h1 c = queue h c @ [m] \<and> client_ok h1 c) \<and>
      (\<not> length (queue h c) < 256 \<longrightarrow>
         queue h1 c = queue h c \<and> is_closed h1 c \<and> Clients h1 c = None)"
  proof (cases "length (queue h c) < 256")
    case True
    from range_body_room [OF okc True, of m] obtain h1 where "range_body m c h = Inr h1"
      "Clients h1 = Clients h" "queue h1 c = queue h c @ [m]" "client_ok h1 c"
      "\<forall>d. d \<noteq> c \<longrightarrow> heap h1 d = heap h d" by blast
    then show ?thesis using True by (intro exI [of _ h1]) simp
  next
    case False
    from range_body_full [OF okc False, of m] obtain h1 where "range_body m c h = Inr h1"
      "Clients h1 = (Clients h)(c := None)" "queue h1 c = queue h c" "is_closed h1 c"
      "\<forall>d. d \<noteq> c \<longrightarrow> heap h1 d = heap h d" by blast
    then show ?thesis using False by (intro exI [of _ h1]) simp
  qed
  then obtain h1 where h1: "range_body m c h = Inr h1"
    and others: "\<forall>d. d \<noteq> c \<longrightarrow> heap h1 d = heap h d \<and> Clients h1 d = Clients h d"
    and room: "length (queue h c) < 256 \<longrightarrow> queue h1 c = queue h c @ [m] \<and> client_ok h1 c"
    and full: "\<not> length (queue h c) < 256 \<longrightarrow>
                 queue h1 c = queue h c \<and> is_closed h1 c \<and> Clients h1 c = None"
    by blast
  have ok1: "\<forall>d \<in> set cs. client_ok h1 d"
  proof
    fix d assume d: "d \<in> set cs"
    then have "d \<noteq> c" using notin by auto
    then have "client_ok h1 d = client_ok h d" using others by (intro client_ok_cong) simp_all
    then show "client_ok h1 d" using Cons.prems d by simp
  qed
  from Cons.IH [OF dist ok1] obtain h' where
    run: "range_Clients m cs h1 = Inr h'"
    and out: "\<forall>d. d \<notin> set cs \<longrightarrow> heap h' d = heap h1 d \<and> Clients h' d = Clients h1 d"
    and r: "\<forall>d \<in> set cs. length (queue h1 d) < 256 \<longrightarrow>
              queue h' d = queue h1 d @ [m] \<and> client_ok h' d"
    and f: "\<forall>d \<in> set cs. \<not> length (queue h1 d) < 256 \<longrightarrow>
              queue h' d = queue h1 d \<and> is_closed h' d \<and> Clients h' d = None"
    by blast
  have same: "\<And>d. d \<in> set cs \<Longrightarrow> queue h1 d = queue h d"
  proof -
    fix d assume "d \<in> set cs"
    then have "d \<noteq> c" using notin by auto
    then show "queue h1 d = queue h d" using others by (intro queue_cong) simp
  qed
  have atc: "heap h' c = heap h1 c \<and> Clients h' c = Clients h1 c" using out notin by simp
  have "range_Clients m (c # cs) h = Inr h'" using h1 run by simp
  moreover have "\<forall>d. d \<notin> set (c # cs) \<longrightarrow> heap h' d = heap h d \<and> Clients h' d = Clients h d"
    using out others by simp
  moreover have "\<forall>d \<in> set (c # cs). length (queue h d) < 256 \<longrightarrow>
          queue h' d = queue h d @ [m] \<and> client_ok h' d"
  proof
    fix d assume d: "d \<in> set (c # cs)"
    show "length (queue h d) < 256 \<longrightarrow> queue h' d = queue h d @ [m] \<and> client_ok h' d"
    proof (cases "d = c")
      case True
      have "queue h' c = queue h1 c" "client_ok h' c = client_ok h1 c"
        using atc by (simp_all add: queue_def client_ok_def)
      then show ?thesis using room True by simp
    next
      case False
      then have "d \<in> set cs" using d by simp
      then show ?thesis using r same by simp
    qed
  qed
  moreover have "\<forall>d \<in> set (c # cs). \<not> length (queue h d) < 256 \<longrightarrow>
          queue h' d = queue h d \<and> is_closed h' d \<and> Clients h' d = None"
  proof
    fix d assume d: "d \<in> set (c # cs)"
    show "\<not> length (queue h d) < 256 \<longrightarrow>
          queue h' d = queue h d \<and> is_closed h' d \<and> Clients h' d = None"
    proof (cases "d = c")
      case True
      have "queue h' c = queue h1 c" "is_closed h' c = is_closed h1 c"
        using atc by (simp_all add: queue_def is_closed_def)
      then show ?thesis using full atc True by simp
    next
      case False
      then have "d \<in> set cs" using d by simp
      then show ?thesis using f same by simp
    qed
  qed
  ultimately show ?case by blast
qed

subsection \<open>The events of the hub and the invariant\<close>

lemma Broadcast_spec:
  assumes inv: "hub_inv h" and ord: "iteration_order order h"
  shows "\<exists>h'. Run order (Broadcast m) h = Inr h' \<and> hub_inv h' \<and>
      (\<forall>c. c \<notin> dom (Clients h) \<longrightarrow> heap h' c = heap h c \<and> Clients h' c = None) \<and>
      (\<forall>c \<in> dom (Clients h). length (queue h c) < 256 \<longrightarrow>
          queue h' c = queue h c @ [m] \<and> client_ok h' c) \<and>
      (\<forall>c \<in> dom (Clients h). \<not> length (queue h c) < 256 \<longrightarrow>
          queue h' c = queue h c \<and> is_closed h' c \<and> Clients h' c = None)"
proof -
  have dist: "distinct order" and dom: "set order = dom (Clients h)"
    using ord by (simp_all add: iteration_order_def)
  have ok: "\<forall>c \<in> set order. client_ok h c" using inv dom by (simp add: hub_inv_def)
  from range_Clients_spec [OF dist ok, of m] obtain h' where
    run: "range_Clients m order h = Inr h'"
    and out: "\<forall>c. c \<notin> set order \<longrightarrow> heap h' c = heap h c \<and> Clients h' c = Clients h c"
    and room: "\<forall>c \<in> set order. length (queue h c) < 256 \<longrightarrow>
          queue h' c = queue h c @ [m] \<and> client_ok h' c"
    and full: "\<forall>c \<in> set order. \<not> length (queue h c) < 256 \<longrightarrow>
          queue h' c = queue h c \<and> is_closed h' c \<and> Clients h' c = None"
    by blast
  have "hub_inv h'"
    unfolding hub_inv_def
  proof
    fix c assume c: "c \<in> dom (Clients h')"
    then have "c \<in> set order" using out dom by (cases "c \<in> set order") auto
    moreover from this have "length (queue h c) < 256" using full c by auto
    ultimately show "client_ok h' c" using room by simp
  qed
  moreover have "\<forall>c. c \<notin> dom (Clients h) \<longrightarrow> heap h' c = heap h c \<and> Clients h' c = None"
    using out dom by auto
  ultimately show ?thesis using run room full dom by (intro exI [of _ h']) simp
qed

lemma Unregister_absent: "Clients h c = None \<Longrightarrow> Run order (Unregister c) h = Inr h"
  by simp

lemma Unregister_present:
  assumes "client_ok h c"
  shows "\<exists>h'. Run order (Unregister c) h = Inr h' \<and>
      Clients h' = (Clients h)(c := None) \<and> is_closed h' c \<and> queue h' c = queue h c \<and>
      (\<forall>d. d \<noteq> c \<longrightarrow> heap h' d = heap h d)"
  using assms
  by (auto simp: client_ok_def queue_def is_closed_def close_Send_def close_chan_def
        delete_Clients_def split: option.splits)

lemma hub_inv_remove:
  assumes inv: "hub_inv h" and cl: "Clients h' = (Clients h)(c := None)"
    and same: "\<forall>d. d \<noteq> c \<longrightarrow> heap h' d = heap h d"
  shows "hub_inv h'"
  unfolding hub_inv_def
proof
  fix d assume d: "d \<in> dom (Clients h')"
  then have dc: "d \<noteq> c" and "d \<in> dom (Clients h)" using cl by (auto split: if_splits)
  then have "client_ok h d" using inv by (simp add: hub_inv_def)
  moreover have "heap h' d = heap h d" "Clients h' d = Clients h d" using dc same cl by simp_all
  ultimately show "client_ok h' d" by (simp add: client_ok_def)
qed

lemma Unregister_spec:
  assumes inv: "hub_inv h"
  shows "\<exists>h'. Run order (Unregister c) h = Inr h' \<and> hub_inv h' \<and> Clients h' c = None \<and>
      (\<forall>d. d \<noteq> c \<longrightarrow> heap h' d = heap h d \<and> Clients h' d = Clients h d) \<and>
      (Clients h c = None \<longrightarrow> heap h' c = heap h c) \<and>
      (Clients h c \<noteq> None \<longrightarrow> is_closed h' c \<and> queue h' c = queue h c)"
proof (cases "Clients h c")
  case None
  then show ?thesis using inv by simp
next
  case (Some b)
  then have "client_ok h c" using inv by (auto simp: hub_inv_def)
  from Unregister_present [OF this, of order] obtain h' where
    h': "Run order (Unregister c) h = Inr h'" "Clients h' = (Clients h)(c := None)"
      "is_closed h' c" "queue h' c = queue h c" "\<forall>d. d \<noteq> c \<longrightarrow> heap h' d = heap h d"
    by blast
  have "hub_inv h'" using hub_inv_remove [OF inv h'(2) h'(5)] .
  then show ?thesis using h' Some by (intro exI [of _ h']) simp
qed

lemma ServeWebSocket_spec:
  assumes inv: "hub_inv h" and fresh: "heap h c = None"
  shows "\<exists>h'. ServeWebSocket c user h = Inr h' \<and> hub_inv h' \<and> client_ok h' c \<and>
      queue h' c = [] \<and> \<not> is_closed h' c \<and>
      (\<forall>d. d \<noteq> c \<longrightarrow> heap h' d = heap h d \<and> Clients h' d = Clients h d)"
proof -
  define h' where "h' = h\<lparr>Clients := (Clients h)(c \<mapsto> True),
    heap := (heap h)(c \<mapsto> \<lparr>ID = [], Send = make_chan 256, ClientUserID = user\<rparr>)\<rparr>"
  have run: "ServeWebSocket c user h = Inr h'"
    by (simp add: ServeWebSocket_def h'_def)
  have okc: "client_ok h' c" by (simp add: client_ok_def h'_def make_chan_def)
  have "hub_inv h'"
    unfolding hub_inv_def
  proof
    fix d assume d: "d \<in> dom (Clients h')"
    show "client_ok h' d"
    proof (cases "d = c")
      case True
      then show ?thesis using okc by simp
    next
      case False
      then have "d \<in> dom (Clients h)" using d by (auto simp: h'_def)
      then have "client_ok h d" using inv by (simp add: hub_inv_def)
      then show ?thesis using False by (simp add: client_ok_def h'_def)
    qed
  qed
  then show ?thesis using run okc
    by (intro exI [of _ h']) (simp add: h'_def queue_def is_closed_def make_chan_def)
qed

lemma writePump_spec:
  assumes inv: "hub_inv h"
  shows "hub_inv (writePump c h) \<and> Clients (writePump c h) = Clients h \<and>
     is_closed (writePump c h) d = is_closed h d \<and>
     queue (writePump c h) d = (if d = c then tl (queue h c) else queue h d)"
proof -
  have "client_ok (writePump c h) d" if "client_ok h d" for d
    using that by (auto simp: client_ok_def writePump_def split: option.splits)
  moreover have "Clients (writePump c h) = Clients h"
    by (simp add: writePump_def split: option.splits)
  ultimately have "hub_inv (writePump c h)" using inv by (simp add: hub_inv_def)
  then show ?thesis
    by (auto simp: writePump_def is_closed_def queue_def split: option.splits)
qed

lemma not_registered_open_or_absent:
  "hub_inv h \<Longrightarrow> is_closed h c \<Longrightarrow> Clients h c = None"
  by (metis client_ok_open domIff hub_inv_def)

lemma Broadcast_step_ok:
  assumes inv: "hub_inv h" and ord: "iteration_order order h"
  shows "\<exists>h'. Run order (Broadcast m) h = Inr h' \<and> step_ok h h'"
proof -
  from Broadcast_spec [OF inv ord, of m] obtain h' where
    run: "Run order (Broadcast m) h = Inr h'" and inv': "hub_inv h'"
    and out: "\<forall>c. c \<notin> dom (Clients h) \<longrightarrow> heap h' c = heap h c \<and> Clients h' c = None"
    and room: "\<forall>c \<in> dom (Clients h). length (queue h c) < 256 \<longrightarrow>
          queue h' c = queue h c @ [m] \<and> client_ok h' c"
    and full: "\<forall>c \<in> dom (Clients h). \<not> length (queue h c) < 256 \<longrightarrow>
          queue h' c = queue h c \<and> is_closed h' c \<and> Clients h' c = None"
    by blast
  have stay: "is_closed h' c" if "is_closed h c" for c
  proof -
    have "c \<notin> dom (Clients h)" using not_registered_open_or_absent [OF inv that] by auto
    then have "heap h' c = heap h c" using out by simp
    then show ?thesis using that by (simp add: is_closed_def)
  qed
  have only: "Clients h c \<noteq> None \<and> Clients h' c = None"
    if "\<not> is_closed h c" "is_closed h' c" for c
  proof (cases "c \<in> dom (Clients h)")
    case True
    have "\<not> length (queue h c) < 256"
      using room True that(2) client_ok_open by blast
    then show ?thesis using full True by auto
  next
    case False
    then have "heap h' c = heap h c" using out by simp
    then have "is_closed h' c = is_closed h c" by (simp add: is_closed_def)
    then show ?thesis using that by simp
  qed
  show ?thesis using run inv' stay only by (intro exI [of _ h']) (simp add: step_ok_def)
qed

lemma Unregister_step_ok:
  assumes inv: "hub_inv h"
  shows "\<exists>h'. Run order (Unregister c) h = Inr h' \<and> step_ok h h'"
proof -
  from Unregister_spec [OF inv, of order c] obtain h' where
    run: "Run order (Unregister c) h = Inr h'" and inv': "hub_inv h'"
    and gone: "Clients h' c = None"
    and same: "\<forall>d. d \<noteq> c \<longrightarrow> heap h' d = heap h d \<and> Clients h' d = Clients h d"
    and absent: "Clients h c = None \<longrightarrow> heap h' c = heap h c"
    and present: "Clients h c \<noteq> None \<longrightarrow> is_closed h' c \<and> queue h' c = queue h c"
    by (elim exE conjE) (rule that)
  have eq: "is_closed h' d = is_closed h d" if "d \<noteq> c" for d
    using same that by (simp add: is_closed_def)
  have stay: "is_closed h' d" if "is_closed h d" for d
    using that eq [of d] absent present
    by (cases "d = c"; cases "Clients h c") (auto simp: is_closed_def)
  have only: "Clients h d \<noteq> None \<and> Clients h' d = None"
    if "\<not> is_closed h d" "is_closed h' d" for d
    using that eq [of d] absent gone
    by (cases "d = c"; cases "Clients h c") (auto simp: is_closed_def)
  show ?thesis using run inv' stay only by (intro exI [of _ h']) (simp add: step_ok_def)
qed

lemma step_spec:
  assumes inv: "hub_inv h" and en: "enabled a h"
  shows "\<exists>h'. step a h = Inr h' \<and> step_ok h h'"
proof (cases a)
  case (Connect c user)
  then have fresh: "heap h c = None" using en by simp
  from ServeWebSocket_spec [OF inv fresh, of user] obtain h' where
    run: "ServeWebSocket c user h = Inr h'" and inv': "hub_inv h'"
    and open': "\<not> is_closed h' c"
    and same: "\<forall>d. d \<noteq> c \<longrightarrow> heap h' d = heap h d \<and> Clients h' d = Clients h d"
    by blast
  have eq: "is_closed h' d = is_closed h d" if "d \<noteq> c" for d
    using same that by (simp add: is_closed_def)
  have "\<not> is_closed h c" using fresh by (simp add: is_closed_def)
  then have "is_closed h' d = is_closed h d" for d
    using eq [of d] open' by (cases "d = c") auto
  then have "step_ok h h'" using inv' by (simp add: step_ok_def)
  then show ?thesis using run Connect by simp
next
  case (Frame c now message order)
  then have ord: "iteration_order order h" using en by simp
  show ?thesis
  proof (cases "readPump_message now message")
    case None
    have "step_ok h h" using inv by (simp add: step_ok_def)
    then show ?thesis using None Frame by (simp add: readPump_def)
  next
    case (Some b)
    then show ?thesis using Broadcast_step_ok [OF inv ord, of b] Frame by (simp add: readPump_def)
  qed
next
  case (Disconnect c)
  then show ?thesis using Unregister_step_ok [OF inv, of "[]" c] by simp
next
  case (Drain c)
  have "step_ok h (writePump c h)"
    using writePump_spec [OF inv, of c] by (simp add: step_ok_def)
  then show ?thesis using Drain by simp
next
  case (PlaySync now userID songID position order)
  then have ord: "iteration_order order h" using en by simp
  show ?thesis using Broadcast_step_ok [OF inv ord] PlaySync by (simp add: SendPlaySync_def)
next
  case (PauseSync now userID position order)
  then have ord: "iteration_order order h" using en by simp
  show ?thesis using Broadcast_step_ok [OF inv ord] PauseSync by (simp add: SendPauseSync_def)
qed

lemma hub_inv_NewHub: "hub_inv NewHub"
  by (simp add: hub_inv_def NewHub_def)

lemma run_spec:
  assumes "hub_inv h" "admissible as h"
  shows "\<exists>h'. run as h = Inr h' \<and> hub_inv h'"
  using assms
proof (induction as arbitrary: h)
  case Nil
  then show ?case by simp
next
  case (Cons a as)
  then have en: "enabled a h" by simp
  from step_spec [OF Cons.prems(1) en] obtain h1 where
    h1: "step a h = Inr h1" and ok: "step_ok h h1" by blast
  then have "hub_inv h1" "admissible as h1" using Cons.prems by (simp_all add: step_ok_def)
  from Cons.IH [OF this] show ?case using h1 by simp
qed

subsection \<open>The wire format\<close>

lemma scale_small: "\<bar>n\<bar> < 2 ^ 53 \<Longrightarrow> scale \<bar>n\<bar> = 1"
  by (simp add: scale.simps)

lemma float64_of_int_small: "\<bar>n\<bar> < 2 ^ 53 \<Longrightarrow> float64_of_int n = Some (of_int n)"
  by (simp add: float64_of_int_def scale_small Let_def mult_sgn_abs)

lemma integer_literal_small:
  "\<bar>n\<bar> < 2 ^ 53 \<Longrightarrow> integer_literal n = JNumber (Some n) (Some (of_int n))"
  by (simp add: integer_literal_def float64_of_int_small)

lemma field_of_tags:
  "field_of ''type'' = Some FType" "field_of ''user_id'' = Some FUserID"
  "field_of ''song_id'' = Some FSongID" "field_of ''position'' = Some FPosition"
  "field_of ''volume'' = Some FVolume" "field_of ''timestamp'' = Some FTimestamp"
  by (simp_all add: field_of_def lower_def)

lemma as_int64_integer_literal: "as_int64 (integer_literal (sint t)) = Store t"
  for t :: "64 word"
  using sint_ge [of t] sint_lt [of t] by (simp add: integer_literal_def)

lemma as_float64_float64_literal: "as_float64 (float64_literal x) = Store x"
  by (simp add: float64_literal_def)

lemma store_error:
  "snd (store f l upd st) = None \<longleftrightarrow> snd st = None \<and> l \<noteq> Mismatch"
  by (cases l) (auto simp: store_def split: option.splits)

lemma object_member_error:
  "snd (object_member st kv) = None \<longleftrightarrow> snd st = None \<and> \<not> rejects kv"
  by (simp add: object_member_def rejects_def Let_def store_error
        split: option.splits field.splits)

lemma foldl_object_member_error:
  "snd (foldl object_member st members) = None \<longleftrightarrow> snd st = None \<and> \<not> list_ex rejects members"
proof (induction members arbitrary: st)
  case Nil
  then show ?case by simp
next
  case (Cons kv members)
  show ?case by (simp add: Cons.IH object_member_error)
qed

lemma Unmarshal_object_fails:
  "isl (Unmarshal (JSON (JObject members)) msg) \<longleftrightarrow> list_ex rejects members"
proof -
  obtain msg' e where r: "foldl object_member (msg, None) members = (msg', e)"
    by (cases "foldl object_member (msg, None) members")
  have "e = None \<longleftrightarrow> \<not> list_ex rejects members"
    using foldl_object_member_error [of "(msg, None)" members] r by simp
  then show ?thesis using r by (cases e) (simp_all add: Unmarshal_def)
qed


lemma Unmarshal_Marshal: "Unmarshal (Marshal m) zero_message = Inr m"
  by (cases m)
    (simp add: Marshal_def Unmarshal_def object_member_def store_def field_of_tags
       as_float64_float64_literal as_int64_integer_literal zero_message_def)

lemma add_timestamp_nonzero: "now \<noteq> 0 \<Longrightarrow> Timestamp (add_timestamp now msg) \<noteq> 0"
  by (simp add: add_timestamp_def)

lemma add_timestamp_id: "Timestamp m \<noteq> 0 \<Longrightarrow> add_timestamp now m = m"
  by (simp add: add_timestamp_def)

lemma object_member_Timestamp:
  "\<not> (field_of (fst kv) = Some FTimestamp \<and> snd kv \<noteq> JNull) \<Longrightarrow>
     Timestamp (fst (object_member st kv)) = Timestamp (fst st)"
  by (cases "as_string (snd kv)"; cases "as_float64 (snd kv)")
    (auto simp: object_member_def store_def Let_def split: option.splits field.splits)

lemma foldl_object_member_Timestamp:
  "\<not> list_ex (\<lambda>kv. field_of (fst kv) = Some FTimestamp \<and> snd kv \<noteq> JNull) members \<Longrightarrow>
     Timestamp (fst (foldl object_member st members)) = Timestamp (fst st)"
proof (induction members arbitrary: st)
  case Nil
  then show ?case by simp
next
  case (Cons kv members)
  then show ?case by (simp add: object_member_Timestamp)
qed

lemma Unmarshal_no_timestamp:
  assumes "\<not> list_ex (\<lambda>kv. field_of (fst kv) = Some FTimestamp \<and> snd kv \<noteq> JNull) members"
    and "Unmarshal (JSON (JObject members)) zero_message = Inr msg"
  shows "Timestamp msg = 0"
proof -
  have "Timestamp (fst (foldl object_member (zero_message, None) members)) = 0"
    using foldl_object_member_Timestamp [OF assms(1), of "(zero_message, None)"]
    by (simp add: zero_message_def)
  then show ?thesis using assms(2)
    by (auto simp: Unmarshal_def split: prod.splits option.splits)
qed

subsection \<open>Evaluation on concrete inputs\<close>

text \<open>The defining equations that unfold a run on a concrete state.\<close>

lemmas hub_eval = ServeWebSocket_def readPump_def readPump_message_def readPump_decode_def
  Unmarshal_def object_member_def store_def field_of_tags integer_literal_small zero_message_def
  add_timestamp_def Marshal_def float64_literal_def range_body_def try_send_def close_Send_def
  close_chan_def delete_Clients_def make_chan_def writePump_def iteration_order_def NewHub_def
  queue_def is_closed_def

lemma hub_inv_hub_two: "hub_inv hub_two"
  by (simp add: hub_inv_def client_ok_def hub_two_def make_chan_def)

lemma iteration_order_hub_two: "iteration_order [2, 1] hub_two"
  by (simp add: iteration_order_def hub_two_def)

lemma decode_play_frame: "readPump_decode 1000 play_frame = Inr play_message"
  by (simp add: play_frame_def play_message_def readPump_decode_def Unmarshal_def
        object_member_def store_def field_of_tags integer_literal_small zero_message_def add_timestamp_def)

lemma queue_hub_two: "queue hub_two 1 = []" "queue hub_two 2 = []"
  by (simp_all add: queue_def hub_two_def make_chan_def)

subsection \<open>A run that fills a queue\<close>

lemma run_append:
  "run (as @ bs) h = (case run as h of Inl p \<Rightarrow> Inl p | Inr h' \<Rightarrow> run bs h')"
  by (induction as arbitrary: h) (simp_all split: sum.splits)

lemma admissible_append:
  "admissible (as @ bs) h \<longleftrightarrow>
     admissible as h \<and> (case run as h of Inl p \<Rightarrow> True | Inr h' \<Rightarrow> admissible bs h')"
  by (induction as arbitrary: h) (auto split: sum.splits)

lemma run_two_connects: "run [Connect 1 ''alice'', Connect 2 ''bob''] NewHub = Inr hub_two"
  by (simp add: hub_two_def ServeWebSocket_def NewHub_def)

lemma admissible_two_connects: "admissible [Connect 1 ''alice'', Connect 2 ''bob''] NewHub"
  by (simp add: ServeWebSocket_def NewHub_def)

lemma flooded_hub_two: "flooded 0 hub_two"
  using hub_inv_hub_two queue_hub_two by (auto simp: flooded_def hub_two_def)

lemma flood_round_step:
  assumes fl: "flooded k h" and k: "k < 256"
  shows "admissible flood_round h \<and> (\<exists>h'. run flood_round h = Inr h' \<and> flooded (Suc k) h')"
proof -
  let ?b = "Marshal play_message"
  have inv: "hub_inv h" and dom: "dom (Clients h) = {1, 2}"
    and q2: "queue h 2 = []" and q1: "queue h 1 = replicate k ?b"
    using fl by (simp_all add: flooded_def)
  have ord: "iteration_order [2, 1] h" using dom by (auto simp: iteration_order_def)
  have "client_ok h 2" using inv dom by (simp add: hub_inv_def)
  then have h2: "heap h 2 \<noteq> None" by (auto simp: client_ok_def split: option.splits)
  have sent: "readPump_message 1000 play_frame = Some ?b"
    by (simp add: readPump_message_def decode_play_frame)
  from Broadcast_spec [OF inv ord, of ?b] obtain h1 where
    run1: "Run [2, 1] (Broadcast ?b) h = Inr h1" and inv1: "hub_inv h1"
    and out: "\<forall>c. c \<notin> dom (Clients h) \<longrightarrow> heap h1 c = heap h c \<and> Clients h1 c = None"
    and room: "\<forall>c \<in> dom (Clients h). length (queue h c) < 256 \<longrightarrow>
          queue h1 c = queue h c @ [?b] \<and> client_ok h1 c"
    by (elim exE conjE) (rule that)
  have r1: "queue h1 1 = replicate (Suc k) ?b" "client_ok h1 1"
    using room [rule_format, of 1] dom q1 k by (simp_all add: replicate_append_same)
  have r2: "queue h1 2 = [?b]" "client_ok h1 2"
    using room [rule_format, of 2] dom q2 by simp_all
  have dom1: "dom (Clients h1) = {1, 2}"
  proof
    show "dom (Clients h1) \<subseteq> {1, 2}" using out dom by auto
    show "{1, 2} \<subseteq> dom (Clients h1)" using r1(2) r2(2) by (auto simp: client_ok_def)
  qed
  have step1: "step (Frame 2 1000 play_frame [2, 1]) h = Inr h1"
    using sent run1 by (simp add: readPump_def)
  have h12: "heap h1 2 \<noteq> None" using r2(2) by (auto simp: client_ok_def split: option.splits)
  let ?h' = "writePump 2 h1"
  from writePump_spec [OF inv1, of 2 1] writePump_spec [OF inv1, of 2 2]
  have "hub_inv ?h'" "Clients ?h' = Clients h1" "queue ?h' 1 = queue h1 1" "queue ?h' 2 = tl (queue h1 2)"
    by simp_all
  then have "flooded (Suc k) ?h'" using dom1 r1 r2 by (simp add: flooded_def)
  moreover have "run flood_round h = Inr ?h'" using step1 by (simp add: flood_round_def)
  moreover have "admissible flood_round h"
    using step1 h2 ord h12 by (simp add: flood_round_def)
  ultimately show ?thesis by blast
qed

lemma flood_rounds:
  assumes "flooded k h" "k + n \<le> 256"
  shows "admissible (concat (replicate n flood_round)) h \<and>
         (\<exists>h'. run (concat (replicate n flood_round)) h = Inr h' \<and> flooded (k + n) h')"
  using assms
proof (induction n arbitrary: k h)
  case 0
  then show ?case by simp
next
  case (Suc n)
  then have "k < 256" by simp
  from flood_round_step [OF Suc.prems(1) this] obtain h1 where
    adm1: "admissible flood_round h" and run1: "run flood_round h = Inr h1"
    and fl1: "flooded (Suc k) h1" by blast
  have "Suc k + n \<le> 256" using Suc.prems(2) by simp
  from Suc.IH [OF fl1 this] obtain h' where
    adm: "admissible (concat (replicate n flood_round)) h1"
    and run: "run (concat (replicate n flood_round)) h1 = Inr h'"
    and fl: "flooded (Suc k + n) h'" by blast
  show ?case using adm1 run1 adm run fl
    by (simp add: run_append admissible_append)
qed

lemma flood_run_256:
  "admissible (flood_run 256) NewHub \<and>
   (\<exists>h. run (flood_run 256) NewHub = Inr h \<and> flooded 256 h)"
proof -
  from flood_rounds [OF flooded_hub_two, of 256] obtain h where
    adm: "admissible (concat (replicate 256 flood_round)) hub_two"
    and run: "run (concat (replicate 256 flood_round)) hub_two = Inr h" and fl: "flooded 256 h"
    by auto
  have "admissible (flood_run 256) NewHub"
    unfolding flood_run_def admissible_append run_two_connects
    using admissible_two_connects adm by simp
  moreover have "run (flood_run 256) NewHub = Inr h"
    unfolding flood_run_def run_append run_two_connects
    using run by simp
  ultimately show ?thesis using fl by blast
qed

lemma jammed_hub_two: "jammed 0 hub_two"
  using hub_inv_hub_two queue_hub_two by (auto simp: jammed_def hub_two_def)

lemma jam_step:
  assumes jm: "jammed k h" and k: "k < 256"
  shows "enabled (Frame 2 1000 play_frame [2, 1]) h \<and>
         (\<exists>h'. step (Frame 2 1000 play_frame [2, 1]) h = Inr h' \<and> jammed (Suc k) h')"
proof -
  let ?b = "Marshal play_message"
  have inv: "hub_inv h" and dom: "dom (Clients h) = {1, 2}"
    and q1: "queue h 1 = replicate k ?b" and q2: "queue h 2 = replicate k ?b"
    using jm by (simp_all add: jammed_def)
  have ord: "iteration_order [2, 1] h" using dom by (auto simp: iteration_order_def)
  have "client_ok h 2" using inv dom by (simp add: hub_inv_def)
  then have h2: "heap h 2 \<noteq> None" by (auto simp: client_ok_def split: option.splits)
  have sent: "readPump_message 1000 play_frame = Some ?b"
    by (simp add: readPump_message_def decode_play_frame)
  from Broadcast_spec [OF inv ord, of ?b] obtain h1 where
    run1: "Run [2, 1] (Broadcast ?b) h = Inr h1" and inv1: "hub_inv h1"
    and out: "\<forall>c. c \<notin> dom (Clients h) \<longrightarrow> heap h1 c = heap h c \<and> Clients h1 c = None"
    and room: "\<forall>c \<in> dom (Clients h). length (queue h c) < 256 \<longrightarrow>
          queue h1 c = queue h c @ [?b] \<and> client_ok h1 c"
    by (elim exE conjE) (rule that)
  have r1: "queue h1 1 = replicate (Suc k) ?b" "client_ok h1 1"
    using room [rule_format, of 1] dom q1 k by (simp_all add: replicate_append_same)
  have r2: "queue h1 2 = replicate (Suc k) ?b" "client_ok h1 2"
    using room [rule_format, of 2] dom q2 k by (simp_all add: replicate_append_same)
  have dom1: "dom (Clients h1) = {1, 2}"
  proof
    show "dom (Clients h1) \<subseteq> {1, 2}" using out dom by auto
    show "{1, 2} \<subseteq> dom (Clients h1)" using r1(2) r2(2) by (auto simp: client_ok_def)
  qed
  have "step (Frame 2 1000 play_frame [2, 1]) h = Inr h1"
    using sent run1 by (simp add: readPump_def)
  moreover have "jammed (Suc k) h1" using inv1 dom1 r1 r2 by (simp add: jammed_def)
  ultimately show ?thesis using h2 ord by simp
qed

lemma jam_rounds:
  assumes "jammed k h" "k + n \<le> 256"
  shows "admissible (replicate n (Frame 2 1000 play_frame [2, 1])) h \<and>
         (\<exists>h'. run (replicate n (Frame 2 1000 play_frame [2, 1])) h = Inr h' \<and>
               jammed (k + n) h')"
  using assms
proof (induction n arbitrary: k h)
  case 0
  then show ?case by simp
next
  case (Suc n)
  then have "k < 256" by simp
  from jam_step [OF Suc.prems(1) this] obtain h1 where
    en: "enabled (Frame 2 1000 play_frame [2, 1]) h"
    and st: "step (Frame 2 1000 play_frame [2, 1]) h = Inr h1"
    and jm1: "jammed (Suc k) h1" by blast
  have "Suc k + n \<le> 256" using Suc.prems(2) by simp
  from Suc.IH [OF jm1 this] obtain h' where
    adm: "admissible (replicate n (Frame 2 1000 play_frame [2, 1])) h1"
    and run: "run (replicate n (Frame 2 1000 play_frame [2, 1])) h1 = Inr h'"
    and jm: "jammed (Suc k + n) h'" by blast
  show ?case using en st adm run jm by simp
qed

lemma jam_run_256:
  "admissible (jam_run 256) NewHub \<and>
   (\<exists>h. run (jam_run 256) NewHub = Inr h \<and> jammed 256 h)"
proof -
  from jam_rounds [OF jammed_hub_two, of 256] obtain h where
    adm: "admissible (replicate 256 (Frame 2 1000 play_frame [2, 1])) hub_two"
    and run: "run (replicate 256 (Frame 2 1000 play_frame [2, 1])) hub_two = Inr h"
    and jm: "jammed 256 h"
    by auto
  have "admissible (jam_run 256) NewHub"
    unfolding jam_run_def admissible_append run_two_connects
    using admissible_two_connects adm by simp
  moreover have "run (jam_run 256) NewHub = Inr h"
    unfolding jam_run_def run_append run_two_connects
    using run by simp
  ultimately show ?thesis using jm by blast
qed

subsection \<open>What the decoder rejects and what it stores\<close>






lemma object_member_stores_Timestamp:
  assumes "field_of key = Some FTimestamp" "- (2 ^ 63) \<le> n" "n < 2 ^ 63"
  shows "Timestamp (fst (object_member st (key, JNumber (Some n) x))) = word_of_int n"
  using assms by (simp add: object_member_def store_def)

lemma Unmarshal_timestamp_member:
  assumes key: "field_of key = Some FTimestamp"
    and last: "\<not> list_ex (\<lambda>kv. field_of (fst kv) = Some FTimestamp \<and> snd kv \<noteq> JNull) after"
    and un: "Unmarshal (JSON (JObject (before @ (key, JNumber (Some n) x) # after))) zero_message
               = Inr msg"
  shows "- (2 ^ 63) \<le> n \<and> n < 2 ^ 63 \<and> Timestamp msg = word_of_int n"
proof -
  let ?kv = "(key, JNumber (Some n) x)"
  have "\<not> isl (Unmarshal (JSON (JObject (before @ ?kv # after))) zero_message)"
    using un by simp
  then have "\<not> rejects ?kv" by (simp add: Unmarshal_object_fails)
  then have range: "- (2 ^ 63) \<le> n \<and> n < 2 ^ 63"
    using key by (simp add: rejects_def split: if_splits)
  let ?st = "foldl object_member (zero_message, None) before"
  have "Timestamp (fst (foldl object_member (object_member ?st ?kv) after)) =
        Timestamp (fst (object_member ?st ?kv))"
    using last by (rule foldl_object_member_Timestamp)
  also have "\<dots> = word_of_int n"
    using key range by (simp add: object_member_stores_Timestamp)
  finally have "Timestamp (fst (foldl object_member (zero_message, None)
      (before @ ?kv # after))) = word_of_int n"
    by simp
  then have "Timestamp msg = word_of_int n"
    using un by (auto simp: Unmarshal_def split: prod.splits option.splits)
  then show ?thesis using range by simp
qed

lemma sint_word_of_int_int64:
  "- (2 ^ 63) \<le> n \<Longrightarrow> n < 2 ^ 63 \<Longrightarrow> sint (word_of_int n :: 64 word) = n"
  by (simp add: sint_sbintrunc' signed_take_bit_int_eq_self)

lemma word_of_int_int64_zero:
  "- (2 ^ 63) \<le> n \<Longrightarrow> n < 2 ^ 63 \<Longrightarrow> (word_of_int n :: 64 word) = 0 \<longleftrightarrow> n = 0"
  using sint_word_of_int_int64 [of n] by auto

lemma Unmarshal_play_frame: "Unmarshal play_frame zero_message = Inr play_message"
  by (simp add: play_frame_def play_message_def Unmarshal_def object_member_def store_def
        field_of_tags integer_literal_small zero_message_def)

lemma field_of_long_s:
  "field_of [CHR ''t'', CHR ''i'', CHR ''m'', CHR ''e'', CHR 0xC5, CHR 0xBF, CHR ''t'', CHR ''a'',
     CHR ''m'', CHR ''p''] = Some FTimestamp"
  by (simp add: field_of_def lower_def)

lemma Unmarshal_long_s_frame:
  "Unmarshal long_s_frame zero_message = Inr (zero_message\<lparr>Timestamp := 7\<rparr>)"
  by (simp add: long_s_frame_def Unmarshal_def object_member_def store_def field_of_long_s
        integer_literal_small)

section \<open>The claims\<close>

text \<open>
  C1, as the code has it. In a state the program reaches from \<^verbatim>\<open>NewHub()\<close>, let the
  \<^verbatim>\<open>readPump\<close> of client \<open>p\<close> read a frame that decodes, and let \<open>b\<close> be the payload it sends on
  \<^verbatim>\<open>hub.Broadcast\<close>. The hub serves the broadcast without a panic, whatever the order of
  the iteration; every client in the registry whose queue has room gets \<open>b\<close> at the end
  of its queue and stays registered; a client outside the registry gets nothing. The
  sender is one of the clients served: when \<open>p\<close> is registered and its queue has room,
  \<open>p\<close> gets its own payload back.
\<close>

theorem broadcast_reaches_every_client:
  assumes adm: "admissible as NewHub" and reach: "run as NewHub = Inr h"
    and ord: "iteration_order order h"
    and sent: "readPump_message now message = Some b"
  shows "\<exists>h'. readPump p now message order h = Inr h' \<and>
      (\<forall>c \<in> dom (Clients h). length (queue h c) < 256 \<longrightarrow>
          queue h' c = queue h c @ [b] \<and> Clients h' c = Some True) \<and>
      (\<forall>c. c \<notin> dom (Clients h) \<longrightarrow> queue h' c = queue h c \<and> Clients h' c = None) \<and>
      (p \<in> dom (Clients h) \<and> length (queue h p) < 256 \<longrightarrow> queue h' p = queue h p @ [b])"
proof -
  have inv: "hub_inv h" using run_spec [OF hub_inv_NewHub adm] reach by auto
  from Broadcast_spec [OF inv ord, of b] obtain h' where
    run: "Run order (Broadcast b) h = Inr h'"
    and out: "\<forall>c. c \<notin> dom (Clients h) \<longrightarrow> heap h' c = heap h c \<and> Clients h' c = None"
    and room: "\<forall>c \<in> dom (Clients h). length (queue h c) < 256 \<longrightarrow>
          queue h' c = queue h c @ [b] \<and> client_ok h' c"
    by (elim exE conjE) (rule that)
  have "readPump p now message order h = Inr h'" using sent run by (simp add: readPump_def)
  moreover have "\<forall>c \<in> dom (Clients h). length (queue h c) < 256 \<longrightarrow>
          queue h' c = queue h c @ [b] \<and> Clients h' c = Some True"
    using room by (simp add: client_ok_def)
  moreover have "\<forall>c. c \<notin> dom (Clients h) \<longrightarrow> queue h' c = queue h c \<and> Clients h' c = None"
    using out by (simp add: queue_def)
  ultimately show ?thesis by (intro exI [of _ h']) simp
qed

theorem broadcast_reaches_every_client_witness:
  "admissible [Connect 1 ''alice'', Connect 2 ''bob''] NewHub \<and>
   run [Connect 1 ''alice'', Connect 2 ''bob''] NewHub = Inr hub_two \<and>
   iteration_order [2, 1] hub_two \<and>
   readPump_message 1000 play_frame = Some (Marshal play_message) \<and>
   1 \<in> dom (Clients hub_two) \<and> length (queue hub_two 1) < 256 \<and>
   queue (projr (readPump 1 1000 play_frame [2, 1] hub_two)) 1 = [Marshal play_message] \<and>
   queue (projr (readPump 1 1000 play_frame [2, 1] hub_two)) 3 = []"
proof -
  have sent: "readPump_message 1000 play_frame = Some (Marshal play_message)"
    by (simp add: readPump_message_def decode_play_frame)
  have reg: "1 \<in> dom (Clients hub_two)" "3 \<notin> dom (Clients hub_two)"
    by (simp_all add: hub_two_def)
  have q3: "queue hub_two 3 = []" by (simp add: queue_def hub_two_def)
  from broadcast_reaches_every_client
    [OF admissible_two_connects run_two_connects iteration_order_hub_two sent, of 1]
  obtain h' where run: "readPump 1 1000 play_frame [2, 1] hub_two = Inr h'"
    and out: "\<forall>c. c \<notin> dom (Clients hub_two) \<longrightarrow> queue h' c = queue hub_two c \<and> Clients h' c = None"
    and self: "1 \<in> dom (Clients hub_two) \<and> length (queue hub_two 1) < 256 \<longrightarrow>
                 queue h' 1 = queue hub_two 1 @ [Marshal play_message]"
    by (elim exE conjE) (rule that)
  have "queue h' 1 = [Marshal play_message]" using self reg queue_hub_two by simp
  moreover have "queue h' 3 = []" using out reg q3 by simp
  ultimately show ?thesis
    using admissible_two_connects run_two_connects iteration_order_hub_two sent reg
      queue_hub_two run
    by simp
qed

text \<open>
  C1 as stated is false. Clients 1 and 2 are registered with empty queues; client 1 sends
  \<^verbatim>\<open>{"type":"play","song_id":"42","timestamp":1}\<close>. The hub serves the broadcast, and
  afterwards the queue of client 1, the sender, holds that message.
\<close>

theorem sender_excluded_counterexample:
  "Clients hub_two 1 = Some True \<and> queue hub_two 1 = [] \<and>
   \<not> isl (readPump 1 1000 play_frame [2, 1] hub_two) \<and>
   queue (projr (readPump 1 1000 play_frame [2, 1] hub_two)) 1 = [Marshal play_message]"
  by (simp add: play_frame_def play_message_def hub_two_def hub_eval)

text \<open>
  C2, as the code has it. The hub has no clock and reads no field of a payload. In a state
  the program reaches from \<^verbatim>\<open>NewHub()\<close>, if a frame read at clock reading \<open>now\<close> decodes to \<open>msg\<close>,
  the hub serves the broadcast without a panic and every client in the registry whose
  queue has room gets the encoding of \<open>msg\<close> and stays registered. Nothing is assumed
  of \<open>now\<close> and of the timestamp of \<open>msg\<close>: this holds when the age \<open>now - timestamp\<close> is
  at most 5 seconds, and just as well when it is more.
\<close>

theorem no_freshness_filter:
  assumes adm: "admissible as NewHub" and reach: "run as NewHub = Inr h"
    and ord: "iteration_order order h"
    and dec: "readPump_decode now message = Inr msg"
  shows "\<exists>h'. readPump p now message order h = Inr h' \<and>
      (\<forall>c \<in> dom (Clients h). length (queue h c) < 256 \<longrightarrow>
          queue h' c = queue h c @ [Marshal msg] \<and> Clients h' c = Some True)"
proof -
  have inv: "hub_inv h" using run_spec [OF hub_inv_NewHub adm] reach by auto
  from Broadcast_spec [OF inv ord, of "Marshal msg"] obtain h' where
    run: "Run order (Broadcast (Marshal msg)) h = Inr h'"
    and room: "\<forall>c \<in> dom (Clients h). length (queue h c) < 256 \<longrightarrow>
          queue h' c = queue h c @ [Marshal msg] \<and> client_ok h' c"
    by (elim exE conjE) (rule that)
  have "readPump p now message order h = Inr h'"
    using dec run by (simp add: readPump_def readPump_message_def)
  then show ?thesis using room by (intro exI [of _ h']) (simp add: client_ok_def)
qed

theorem no_freshness_filter_witness:
  "admissible [Connect 1 ''alice'', Connect 2 ''bob''] NewHub \<and>
   run [Connect 1 ''alice'', Connect 2 ''bob''] NewHub = Inr hub_two \<and>
   iteration_order [2, 1] hub_two \<and>
   readPump_decode 1000 play_frame = Inr play_message \<and>
   \<not> spec_accept 1000 (Timestamp play_message) \<and>
   2 \<in> dom (Clients hub_two) \<and> length (queue hub_two 2) < 256 \<and>
   queue (projr (readPump 1 1000 play_frame [2, 1] hub_two)) 2 = [Marshal play_message]"
proof -
  have reg: "2 \<in> dom (Clients hub_two)" by (simp add: hub_two_def)
  have stale: "\<not> spec_accept 1000 (Timestamp play_message)"
    by (simp add: spec_accept_def play_message_def)
  from no_freshness_filter
    [OF admissible_two_connects run_two_connects iteration_order_hub_two decode_play_frame, of 1]
  obtain h' where run: "readPump 1 1000 play_frame [2, 1] hub_two = Inr h'"
    and room: "\<forall>c \<in> dom (Clients hub_two). length (queue hub_two c) < 256 \<longrightarrow>
          queue h' c = queue hub_two c @ [Marshal play_message] \<and> Clients h' c = Some True"
    by (elim exE conjE) (rule that)
  have "queue h' 2 = [Marshal play_message]"
    using room [rule_format, OF reg] queue_hub_two by simp
  then show ?thesis
    using admissible_two_connects run_two_connects iteration_order_hub_two decode_play_frame
      stale reg queue_hub_two run
    by simp
qed

text \<open>
  C2 as stated is false. At clock reading 1000 client 1 sends a message whose timestamp
  is 1: its age is 999 seconds, the policy of the specification does not accept it, and
  the hub puts it in the queue of client 2.
\<close>

theorem stale_message_counterexample:
  "readPump_decode 1000 play_frame = Inr play_message \<and>
   sint (1000 :: 64 word) - sint (Timestamp play_message) = 999 \<and>
   \<not> spec_accept 1000 (Timestamp play_message) \<and>
   Clients hub_two 2 = Some True \<and> queue hub_two 2 = [] \<and>
   \<not> isl (readPump 1 1000 play_frame [2, 1] hub_two) \<and>
   queue (projr (readPump 1 1000 play_frame [2, 1] hub_two)) 2 = [Marshal play_message]"
  by (simp add: spec_accept_def play_frame_def play_message_def hub_two_def hub_eval)




text \<open>
  C4, as the code has it. In a state the program reaches from \<^verbatim>\<open>NewHub()\<close>, let the
  queue of the registered client \<open>a\<close> hold 256 messages, the capacity
  \<^verbatim>\<open>ServeWebSocket\<close> gives it. Then the broadcast of a message, in whatever order the
  registry is visited, does not panic; in that one step \<open>a\<close> leaves the registry and its
  channel, open before, is closed, the message not being added to it. Every other
  registered client is served by its own non-blocking send: one whose queue has room
  gets the message at the end of its queue and stays registered with an open channel;
  one whose queue is full as well gets nothing and is removed and closed like \<open>a\<close>.
\<close>

theorem slow_consumer_evicted:
  assumes adm: "admissible as NewHub" and reach: "run as NewHub = Inr h"
    and ord: "iteration_order order h"
    and reg: "a \<in> dom (Clients h)" and full: "length (queue h a) = 256"
  shows "\<exists>h'. Run order (Broadcast m) h = Inr h' \<and>
      Clients h' a = None \<and> is_closed h' a \<and> \<not> is_closed h a \<and> queue h' a = queue h a \<and>
      (\<forall>b \<in> dom (Clients h). b \<noteq> a \<and> length (queue h b) < 256 \<longrightarrow>
         queue h' b = queue h b @ [m] \<and> Clients h' b = Some True \<and> \<not> is_closed h' b) \<and>
      (\<forall>b \<in> dom (Clients h). b \<noteq> a \<and> \<not> length (queue h b) < 256 \<longrightarrow>
         queue h' b = queue h b \<and> Clients h' b = None \<and> is_closed h' b)"
proof -
  have inv: "hub_inv h" using run_spec [OF hub_inv_NewHub adm] reach by auto
  from Broadcast_spec [OF inv ord, of m] obtain h' where
    run: "Run order (Broadcast m) h = Inr h'"
    and room: "\<forall>c \<in> dom (Clients h). length (queue h c) < 256 \<longrightarrow>
          queue h' c = queue h c @ [m] \<and> client_ok h' c"
    and evict: "\<forall>c \<in> dom (Clients h). \<not> length (queue h c) < 256 \<longrightarrow>
          queue h' c = queue h c \<and> is_closed h' c \<and> Clients h' c = None"
    by (elim exE conjE) (rule that)
  have "client_ok h a" using inv reg by (simp add: hub_inv_def)
  then have "\<not> is_closed h a" by (rule client_ok_open)
  moreover have "queue h' a = queue h a \<and> is_closed h' a \<and> Clients h' a = None"
    using evict reg full by simp
  moreover have "queue h' b = queue h b @ [m] \<and> Clients h' b = Some True \<and> \<not> is_closed h' b"
    if "b \<in> dom (Clients h)" "length (queue h b) < 256" for b
  proof -
    have "queue h' b = queue h b @ [m]" "client_ok h' b" using room that by simp_all
    then show ?thesis using client_ok_open [of h' b] by (simp add: client_ok_def)
  qed
  ultimately show ?thesis using run evict by (intro exI [of _ h']) simp
qed

theorem slow_consumer_evicted_witness:
  "admissible (flood_run 256) NewHub \<and> run (flood_run 256) NewHub = Inr hub_saturated \<and>
   iteration_order [2, 1] hub_saturated \<and>
   1 \<in> dom (Clients hub_saturated) \<and> length (queue hub_saturated 1) = 256 \<and>
   2 \<in> dom (Clients hub_saturated) \<and> length (queue hub_saturated 2) < 256 \<and>
   Clients (projr (Run [2, 1] (Broadcast play_frame) hub_saturated)) 1 = None \<and>
   is_closed (projr (Run [2, 1] (Broadcast play_frame) hub_saturated)) 1 \<and>
   queue (projr (Run [2, 1] (Broadcast play_frame) hub_saturated)) 2 = [play_frame]"
proof -
  from flood_run_256 obtain h where adm: "admissible (flood_run 256) NewHub"
    and run: "run (flood_run 256) NewHub = Inr h" and fl: "flooded 256 h"
    by blast
  have reach: "run (flood_run 256) NewHub = Inr hub_saturated"
    using run by (simp add: hub_saturated_def)
  have sat: "flooded 256 hub_saturated" using fl run by (simp add: hub_saturated_def)
  have ord: "iteration_order [2, 1] hub_saturated"
    using sat by (auto simp: flooded_def iteration_order_def)
  have reg: "1 \<in> dom (Clients hub_saturated)" "2 \<in> dom (Clients hub_saturated)"
    using sat by (simp_all add: flooded_def)
  have full: "length (queue hub_saturated 1) = 256" using sat by (simp add: flooded_def)
  have room: "queue hub_saturated 2 = []" using sat by (simp add: flooded_def)
  from slow_consumer_evicted [OF adm reach ord reg(1) full, of play_frame] obtain h' where
    run': "Run [2, 1] (Broadcast play_frame) hub_saturated = Inr h'"
    and evicted: "Clients h' 1 = None" "is_closed h' 1"
    and others: "\<forall>b \<in> dom (Clients hub_saturated).
         b \<noteq> 1 \<and> length (queue hub_saturated b) < 256 \<longrightarrow>
         queue h' b = queue hub_saturated b @ [play_frame] \<and> Clients h' b = Some True \<and>
         \<not> is_closed h' b"
    by (elim exE conjE) (rule that)
  have "queue h' 2 = [play_frame]" using others [rule_format, OF reg(2)] room by simp
  then show ?thesis using adm reach ord reg full room run' evicted by simp
qed

text \<open>
  C4 as stated is false. Clients 1 and 2 connect and client 2 sends 256 frames that no
  \<^verbatim>\<open>writePump\<close> takes from the queues, so both queues hold 256 messages. At the next
  broadcast client 1 is evicted, and the other registered client, client 2, does not
  receive its copy: its queue is unchanged and it is removed from the registry too.
\<close>

theorem every_other_receives_counterexample:
  "admissible (jam_run 256) NewHub \<and> run (jam_run 256) NewHub = Inr hub_jammed \<and>
   iteration_order [2, 1] hub_jammed \<and>
   Clients hub_jammed 1 = Some True \<and> length (queue hub_jammed 1) = 256 \<and>
   Clients hub_jammed 2 = Some True \<and>
   \<not> isl (Run [2, 1] (Broadcast play_frame) hub_jammed) \<and>
   Clients (projr (Run [2, 1] (Broadcast play_frame) hub_jammed)) 1 = None \<and>
   queue (projr (Run [2, 1] (Broadcast play_frame) hub_jammed)) 2 = queue hub_jammed 2 \<and>
   Clients (projr (Run [2, 1] (Broadcast play_frame) hub_jammed)) 2 = None"
proof -
  from jam_run_256 obtain h where adm: "admissible (jam_run 256) NewHub"
    and run: "run (jam_run 256) NewHub = Inr h" and jm: "jammed 256 h"
    by blast
  have reach: "run (jam_run 256) NewHub = Inr hub_jammed"
    using run by (simp add: hub_jammed_def)
  have jam: "jammed 256 hub_jammed" using jm run by (simp add: hub_jammed_def)
  then have inv: "hub_inv hub_jammed" and dom: "dom (Clients hub_jammed) = {1, 2}"
    and full: "length (queue hub_jammed 1) = 256" "length (queue hub_jammed 2) = 256"
    by (simp_all add: jammed_def)
  have ord: "iteration_order [2, 1] hub_jammed"
    using dom by (auto simp: iteration_order_def)
  have "client_ok hub_jammed 1" "client_ok hub_jammed 2"
    using inv dom by (simp_all add: hub_inv_def)
  then have reg: "Clients hub_jammed 1 = Some True" "Clients hub_jammed 2 = Some True"
    by (simp_all add: client_ok_def)
  from Broadcast_spec [OF inv ord, of play_frame] obtain h' where
    run': "Run [2, 1] (Broadcast play_frame) hub_jammed = Inr h'"
    and evict: "\<forall>c \<in> dom (Clients hub_jammed). \<not> length (queue hub_jammed c) < 256 \<longrightarrow>
          queue h' c = queue hub_jammed c \<and> is_closed h' c \<and> Clients h' c = None"
    by (elim exE conjE) (rule that)
  have "queue h' 1 = queue hub_jammed 1 \<and> is_closed h' 1 \<and> Clients h' 1 = None"
    using evict [rule_format, of 1] dom full by simp
  moreover have "queue h' 2 = queue hub_jammed 2 \<and> is_closed h' 2 \<and> Clients h' 2 = None"
    using evict [rule_format, of 2] dom full by simp
  ultimately show ?thesis using adm reach ord reg full run' by simp
qed

text \<open>
  C5. Round trip. Let \<open>m\<close> be a message that decoding some payload produced, at a clock
  reading \<open>now\<close> other than 0 (the reading \<^verbatim>\<open>time.Now().Unix()\<close> gives at any time but
  the first second of 1970). Then encoding \<open>m\<close> and decoding the result, at any later
  clock reading \<open>now'\<close>, gives \<open>m\<close> back, equal in every field: the fields left out by
  \<^verbatim>\<open>omitempty\<close> are read back as their zero values.
\<close>

theorem decode_encode_roundtrip:
  assumes clock: "now \<noteq> 0" and dec: "readPump_decode now message = Inr m"
  shows "readPump_decode now' (Marshal m) = Inr m"
proof -
  from dec obtain msg where "m = add_timestamp now msg"
    by (auto simp: readPump_decode_def split: sum.splits)
  then have "Timestamp m \<noteq> 0" using clock by (simp add: add_timestamp_nonzero)
  then show ?thesis by (simp add: readPump_decode_def Unmarshal_Marshal add_timestamp_id)
qed

theorem decode_encode_roundtrip_witness:
  "(1000 :: 64 word) \<noteq> 0 \<and> readPump_decode 1000 pause_frame = Inr pause_message \<and>
   readPump_decode 2000 (Marshal pause_message) = Inr pause_message"
proof -
  have clock: "(1000 :: 64 word) \<noteq> 0" by simp
  have dec: "readPump_decode 1000 pause_frame = Inr pause_message"
    by (simp add: pause_frame_def pause_message_def readPump_decode_def Unmarshal_def
          object_member_def store_def field_of_tags integer_literal_small zero_message_def add_timestamp_def)
  from decode_encode_roundtrip [OF clock dec, of 2000] clock dec show ?thesis by simp
qed

text \<open>
  C6. The timestamp is filled in. If the payload unmarshals to \<open>msg\<close>, decoding succeeds
  with a message \<open>m\<close> and the encoding of \<open>m\<close> is what is handed to the hub. When the
  timestamp of \<open>msg\<close> is zero, \<open>m\<close> is \<open>msg\<close> with the timestamp set to the clock reading
  \<open>now\<close>; when it is not zero, \<open>m\<close> is \<open>msg\<close> unchanged. So the timestamp of \<open>m\<close> is not
  zero, for every clock reading other than 0. In terms of the payload: when it is an
  object with no member whose key selects the timestamp and whose value is not
  \<^verbatim>\<open>null\<close>, the timestamp of \<open>m\<close> is \<open>now\<close>; when the last such member carries the integer
  literal \<open>n\<close>, then \<open>n\<close> is in the range of \<^verbatim>\<open>int64\<close>, and the timestamp of \<open>m\<close> is \<open>n\<close>
  itself if \<open>n\<close> is not zero, and \<open>now\<close> if it is.
\<close>

theorem timestamp_populated:
  assumes un: "Unmarshal message zero_message = Inr msg"
  shows "\<exists>m. readPump_decode now message = Inr m \<and>
           readPump_message now message = Some (Marshal m) \<and>
           (Timestamp msg = 0 \<longrightarrow> m = msg\<lparr>Timestamp := now\<rparr>) \<and>
           (Timestamp msg \<noteq> 0 \<longrightarrow> m = msg) \<and>
           (now \<noteq> 0 \<longrightarrow> Timestamp m \<noteq> 0) \<and>
           (\<forall>members. message = JSON (JObject members) \<and>
               \<not> list_ex (\<lambda>kv. field_of (fst kv) = Some FTimestamp \<and> snd kv \<noteq> JNull) members \<longrightarrow>
               Timestamp m = now) \<and>
           (\<forall>before key n x after.
               message = JSON (JObject (before @ (key, JNumber (Some n) x) # after)) \<and>
               field_of key = Some FTimestamp \<and>
               \<not> list_ex (\<lambda>kv. field_of (fst kv) = Some FTimestamp \<and> snd kv \<noteq> JNull) after \<longrightarrow>
               - (2 ^ 63) \<le> n \<and> n < 2 ^ 63 \<and>
               (n \<noteq> 0 \<longrightarrow> sint (Timestamp m) = n) \<and> (n = 0 \<longrightarrow> Timestamp m = now))"
proof -
  let ?m = "add_timestamp now msg"
  have dec: "readPump_decode now message = Inr ?m"
    using un by (simp add: readPump_decode_def)
  then have out: "readPump_message now message = Some (Marshal ?m)"
    by (simp add: readPump_message_def)
  have absent: "Timestamp ?m = now"
    if "message = JSON (JObject members)"
      "\<not> list_ex (\<lambda>kv. field_of (fst kv) = Some FTimestamp \<and> snd kv \<noteq> JNull) members" for members
  proof -
    have "Timestamp msg = 0" using Unmarshal_no_timestamp [OF that(2)] un that(1) by simp
    then show ?thesis by (simp add: add_timestamp_def)
  qed
  have present: "- (2 ^ 63) \<le> n \<and> n < 2 ^ 63 \<and>
      (n \<noteq> 0 \<longrightarrow> sint (Timestamp ?m) = n) \<and> (n = 0 \<longrightarrow> Timestamp ?m = now)"
    if "message = JSON (JObject (before @ (key, JNumber (Some n) x) # after))"
      "field_of key = Some FTimestamp"
      "\<not> list_ex (\<lambda>kv. field_of (fst kv) = Some FTimestamp \<and> snd kv \<noteq> JNull) after"
    for before key n x after
  proof -
    have r: "- (2 ^ 63) \<le> n" "n < 2 ^ 63" and ts: "Timestamp msg = word_of_int n"
      using Unmarshal_timestamp_member [OF that(2) that(3), of before n x msg] un that(1)
      by simp_all
    have z: "Timestamp msg = 0 \<longleftrightarrow> n = 0"
      using ts word_of_int_int64_zero [OF r] by simp
    have "sint (Timestamp msg) = n" using ts sint_word_of_int_int64 [OF r] by simp
    then show ?thesis using r z by (simp add: add_timestamp_def)
  qed
  have fill: "Timestamp msg = 0 \<longrightarrow> ?m = msg\<lparr>Timestamp := now\<rparr>"
    and keep: "Timestamp msg \<noteq> 0 \<longrightarrow> ?m = msg"
    and nonzero: "now \<noteq> 0 \<longrightarrow> Timestamp ?m \<noteq> 0"
    by (simp_all add: add_timestamp_def)
  have no_member: "\<forall>members. message = JSON (JObject members) \<and>
      \<not> list_ex (\<lambda>kv. field_of (fst kv) = Some FTimestamp \<and> snd kv \<noteq> JNull) members \<longrightarrow>
      Timestamp ?m = now"
    using absent by blast
  have member: "\<forall>before key n x after.
      message = JSON (JObject (before @ (key, JNumber (Some n) x) # after)) \<and>
      field_of key = Some FTimestamp \<and>
      \<not> list_ex (\<lambda>kv. field_of (fst kv) = Some FTimestamp \<and> snd kv \<noteq> JNull) after \<longrightarrow>
      - (2 ^ 63) \<le> n \<and> n < 2 ^ 63 \<and>
      (n \<noteq> 0 \<longrightarrow> sint (Timestamp ?m) = n) \<and> (n = 0 \<longrightarrow> Timestamp ?m = now)"
    using present by blast
  show ?thesis
    by (rule exI [of _ ?m]) (intro conjI dec out fill keep nonzero no_member member)
qed

theorem timestamp_populated_witness:
  "Unmarshal pause_frame zero_message = Inr (pause_message\<lparr>Timestamp := 0\<rparr>) \<and>
   readPump_decode 1000 pause_frame = Inr pause_message \<and>
   readPump_message 1000 pause_frame = Some (Marshal pause_message) \<and>
   Timestamp pause_message = 1000 \<and> Timestamp pause_message \<noteq> 0 \<and>
   Unmarshal play_frame zero_message = Inr play_message \<and>
   readPump_decode 1000 play_frame = Inr play_message \<and>
   sint (Timestamp play_message) = 1 \<and>
   sint (Timestamp (projr (readPump_decode 1000 long_s_frame))) = 7"
proof -
  have un: "Unmarshal pause_frame zero_message = Inr (pause_message\<lparr>Timestamp := 0\<rparr>)"
    by (simp add: pause_frame_def pause_message_def Unmarshal_def object_member_def store_def
          field_of_tags zero_message_def)
  have eq: "pause_message\<lparr>Timestamp := 0, Timestamp := 1000\<rparr> = pause_message"
    by (simp add: pause_message_def)
  from timestamp_populated [OF un, of 1000] obtain m where
    "readPump_decode 1000 pause_frame = Inr m" "readPump_message 1000 pause_frame = Some (Marshal m)"
    "m = pause_message\<lparr>Timestamp := 0, Timestamp := 1000\<rparr>" "Timestamp m \<noteq> 0"
    by auto
  moreover have "Timestamp pause_message = 1000" by (simp add: pause_message_def)
  ultimately have absent: "readPump_decode 1000 pause_frame = Inr pause_message"
    "readPump_message 1000 pause_frame = Some (Marshal pause_message)"
    "Timestamp pause_message = 1000" "Timestamp pause_message \<noteq> 0"
    using eq by simp_all
  from timestamp_populated [OF Unmarshal_play_frame, of 1000] obtain m1 where
    d1: "readPump_decode 1000 play_frame = Inr m1"
    and k1: "Timestamp play_message \<noteq> 0 \<longrightarrow> m1 = play_message"
    and p1: "\<forall>before key n x after.
      play_frame = JSON (JObject (before @ (key, JNumber (Some n) x) # after)) \<and>
      field_of key = Some FTimestamp \<and>
      \<not> list_ex (\<lambda>kv. field_of (fst kv) = Some FTimestamp \<and> snd kv \<noteq> JNull) after \<longrightarrow>
      - (2 ^ 63) \<le> n \<and> n < 2 ^ 63 \<and>
      (n \<noteq> 0 \<longrightarrow> sint (Timestamp m1) = n) \<and> (n = 0 \<longrightarrow> Timestamp m1 = 1000)"
    by (elim exE conjE) (rule that)
  have shape1: "play_frame = JSON (JObject ([(''type'', JString ''play''), (''song_id'', JString ''42'')]
      @ (''timestamp'', JNumber (Some 1) (Some 1)) # []))"
    by (simp add: play_frame_def integer_literal_small)
  have s1: "sint (Timestamp m1) = 1"
    using p1 [rule_format, of "[(''type'', JString ''play''), (''song_id'', JString ''42'')]"
        "''timestamp''" 1 "Some 1" "[]"] shape1
    by (simp add: field_of_tags)
  have "Timestamp play_message \<noteq> 0" by (simp add: play_message_def)
  then have m1: "m1 = play_message" using k1 by simp
  from timestamp_populated [OF Unmarshal_long_s_frame, of 1000] obtain m2 where
    d2: "readPump_decode 1000 long_s_frame = Inr m2"
    and p2: "\<forall>before key n x after.
      long_s_frame = JSON (JObject (before @ (key, JNumber (Some n) x) # after)) \<and>
      field_of key = Some FTimestamp \<and>
      \<not> list_ex (\<lambda>kv. field_of (fst kv) = Some FTimestamp \<and> snd kv \<noteq> JNull) after \<longrightarrow>
      - (2 ^ 63) \<le> n \<and> n < 2 ^ 63 \<and>
      (n \<noteq> 0 \<longrightarrow> sint (Timestamp m2) = n) \<and> (n = 0 \<longrightarrow> Timestamp m2 = 1000)"
    by (elim exE conjE) (rule that)
  have shape2: "long_s_frame = JSON (JObject ([] @
      ([CHR ''t'', CHR ''i'', CHR ''m'', CHR ''e'', CHR 0xC5, CHR 0xBF, CHR ''t'', CHR ''a'',
        CHR ''m'', CHR ''p''], JNumber (Some 7) (Some 7)) # []))"
    by (simp add: long_s_frame_def integer_literal_small)
  have s2: "sint (Timestamp m2) = 7"
    using p2 [rule_format, of "[]" "[CHR ''t'', CHR ''i'', CHR ''m'', CHR ''e'', CHR 0xC5,
        CHR 0xBF, CHR ''t'', CHR ''a'', CHR ''m'', CHR ''p'']" 7 "Some 7" "[]"] shape2
    by (simp add: field_of_long_s)
  show ?thesis
    using un absent Unmarshal_play_frame d1 m1 s1 d2 s2 by simp
qed

text \<open>
  C7. Unregister is idempotent. In any state at all, \<open>Unregister c\<close> for a client that is
  not in the registry returns the state unchanged and does not panic. In every state \<open>h\<close>
  the program reaches from \<^verbatim>\<open>NewHub()\<close>: \<open>Unregister c\<close> does not panic and leaves \<open>c\<close>
  out of the registry; if \<open>c\<close> was in it, its channel was open and is now closed, its
  queue content kept; no other client is touched; a second \<open>Unregister c\<close> changes
  nothing. A channel is closed at most once: a client whose channel is closed is not in
  the registry, which is where both removal paths (the \<open>Unregister\<close> case and the
  \<^verbatim>\<open>default\<close> branch of the broadcast) take the channels they close, and no action that
  can happen ends in the panic that Go raises for the \<^verbatim>\<open>close\<close> of a closed channel.
\<close>

theorem Unregister_idempotent:
  "(Clients h c = None \<longrightarrow> Run order (Unregister c) h = Inr h) \<and>
   (admissible as NewHub \<and> run as NewHub = Inr h \<longrightarrow>
      (\<exists>h'. Run order (Unregister c) h = Inr h' \<and> Clients h' c = None \<and>
            Run order (Unregister c) h' = Inr h' \<and>
            (Clients h c \<noteq> None \<longrightarrow>
               \<not> is_closed h c \<and> is_closed h' c \<and> queue h' c = queue h c) \<and>
            (\<forall>d. d \<noteq> c \<longrightarrow> heap h' d = heap h d \<and> Clients h' d = Clients h d)) \<and>
      (\<forall>d. is_closed h d \<longrightarrow> Clients h d = None) \<and>
      (\<forall>a. enabled a h \<longrightarrow> step a h \<noteq> Inl CloseOfClosedChannel))"
proof (intro conjI impI)
  assume "Clients h c = None"
  then show "Run order (Unregister c) h = Inr h" by simp
next
  assume "admissible as NewHub \<and> run as NewHub = Inr h"
  then have inv: "hub_inv h" using run_spec [OF hub_inv_NewHub, of as] by auto
  from Unregister_spec [OF inv, of order c] obtain h' where
    run: "Run order (Unregister c) h = Inr h'"
    and gone: "Clients h' c = None"
    and same: "\<forall>d. d \<noteq> c \<longrightarrow> heap h' d = heap h d \<and> Clients h' d = Clients h d"
    and present: "Clients h c \<noteq> None \<longrightarrow> is_closed h' c \<and> queue h' c = queue h c"
    by (elim exE conjE) (rule that)
  have again: "Run order (Unregister c) h' = Inr h'" using gone by simp
  have "\<not> is_closed h c" if "Clients h c \<noteq> None"
    using that not_registered_open_or_absent [OF inv, of c] by auto
  then show "\<exists>h'. Run order (Unregister c) h = Inr h' \<and> Clients h' c = None \<and>
            Run order (Unregister c) h' = Inr h' \<and>
            (Clients h c \<noteq> None \<longrightarrow>
               \<not> is_closed h c \<and> is_closed h' c \<and> queue h' c = queue h c) \<and>
            (\<forall>d. d \<noteq> c \<longrightarrow> heap h' d = heap h d \<and> Clients h' d = Clients h d)"
    using run gone again same present by (intro exI [of _ h']) simp
next
  assume "admissible as NewHub \<and> run as NewHub = Inr h"
  then have inv: "hub_inv h" using run_spec [OF hub_inv_NewHub, of as] by auto
  show "\<forall>d. is_closed h d \<longrightarrow> Clients h d = None"
    using not_registered_open_or_absent [OF inv] by simp
next
  assume "admissible as NewHub \<and> run as NewHub = Inr h"
  then have inv: "hub_inv h" using run_spec [OF hub_inv_NewHub, of as] by auto
  show "\<forall>a. enabled a h \<longrightarrow> step a h \<noteq> Inl CloseOfClosedChannel"
    using step_spec [OF inv] by fastforce
qed

theorem Unregister_idempotent_witness:
  "admissible (take 3 example_run) NewHub \<and> \<not> isl (run (take 3 example_run) NewHub) \<and>
   Clients (projr (run (take 3 example_run) NewHub)) 2 \<noteq> None \<and>
   \<not> isl (Run [] (Unregister 2) (projr (run (take 3 example_run) NewHub))) \<and>
   is_closed (projr (Run [] (Unregister 2) (projr (run (take 3 example_run) NewHub)))) 2 \<and>
   Clients (projr (Run [] (Unregister 2) (projr (run (take 3 example_run) NewHub)))) 2 = None \<and>
   Run [] (Unregister 2) (projr (Run [] (Unregister 2) (projr (run (take 3 example_run) NewHub))))
     = Run [] (Unregister 2) (projr (run (take 3 example_run) NewHub))"
proof -
  have adm: "admissible (take 3 example_run) NewHub"
    by (simp add: example_run_def play_frame_def hub_eval)
  have "\<exists>h. run (take 3 example_run) NewHub = Inr h \<and> Clients h 2 = Some True"
    by (simp add: example_run_def play_frame_def hub_eval)
  then obtain h where run: "run (take 3 example_run) NewHub = Inr h"
    and reg: "Clients h 2 = Some True" by blast
  from Unregister_idempotent [of h 2 "[]" "take 3 example_run"] adm run reg
  obtain h' where "Run [] (Unregister 2) h = Inr h'" "Clients h' 2 = None"
    "Run [] (Unregister 2) h' = Inr h'" "is_closed h' 2"
    by auto
  then show ?thesis using adm run reg by simp
qed

text \<open>
  C9. The invariant of the hub. After every run of the program from \<^verbatim>\<open>NewHub()\<close> the
  run has not panicked, and every client in the registry exists and has an open
  \<^verbatim>\<open>Send\<close> channel. From such a state every action that can happen is served without
  a panic (so the hub never sends on a closed channel), the same holds afterwards, and
  a channel that the action closes belongs to a client that was in the registry before
  the action and is not in it after.
\<close>

theorem hub_invariant:
  assumes adm: "admissible as NewHub"
  shows "\<exists>h. run as NewHub = Inr h \<and>
      (\<forall>c \<in> dom (Clients h). heap h c \<noteq> None \<and> \<not> is_closed h c) \<and>
      (\<forall>a. enabled a h \<longrightarrow>
         (\<exists>h'. step a h = Inr h' \<and>
            (\<forall>c \<in> dom (Clients h'). heap h' c \<noteq> None \<and> \<not> is_closed h' c) \<and>
            (\<forall>c. \<not> is_closed h c \<and> is_closed h' c \<longrightarrow>
                 c \<in> dom (Clients h) \<and> c \<notin> dom (Clients h'))))"
proof -
  have live: "\<forall>c \<in> dom (Clients g). heap g c \<noteq> None \<and> \<not> is_closed g c" if "hub_inv g" for g :: "bytes hub"
  proof
    fix c assume "c \<in> dom (Clients g)"
    then have ok: "client_ok g c" using that by (simp add: hub_inv_def)
    then have "heap g c \<noteq> None" by (auto simp: client_ok_def split: option.splits)
    then show "heap g c \<noteq> None \<and> \<not> is_closed g c" using client_ok_open [OF ok] by simp
  qed
  from run_spec [OF hub_inv_NewHub adm] obtain h where
    run: "run as NewHub = Inr h" and inv: "hub_inv h" by blast
  have "\<exists>h'. step a h = Inr h' \<and>
            (\<forall>c \<in> dom (Clients h'). heap h' c \<noteq> None \<and> \<not> is_closed h' c) \<and>
            (\<forall>c. \<not> is_closed h c \<and> is_closed h' c \<longrightarrow>
                 c \<in> dom (Clients h) \<and> c \<notin> dom (Clients h'))"
    if en: "enabled a h" for a
  proof -
    from step_spec [OF inv en] obtain h' where
      st: "step a h = Inr h'" and ok: "step_ok h h'" by blast
    have "hub_inv h'" using ok by (simp add: step_ok_def)
    then have "\<forall>c \<in> dom (Clients h'). heap h' c \<noteq> None \<and> \<not> is_closed h' c" by (rule live)
    moreover have "\<forall>c. \<not> is_closed h c \<and> is_closed h' c \<longrightarrow>
                 c \<in> dom (Clients h) \<and> c \<notin> dom (Clients h')"
      using ok by (auto simp: step_ok_def)
    ultimately show ?thesis using st by (intro exI [of _ h']) simp
  qed
  then show ?thesis using run live [OF inv] by (intro exI [of _ h]) simp
qed

theorem hub_invariant_witness:
  "admissible example_run NewHub \<and> \<not> isl (run example_run NewHub) \<and>
   Clients (projr (run example_run NewHub)) 1 = Some True \<and>
   \<not> is_closed (projr (run example_run NewHub)) 1 \<and>
   enabled (Disconnect 1) (projr (run example_run NewHub)) \<and>
   \<not> isl (step (Disconnect 1) (projr (run example_run NewHub)))"
proof -
  have adm: "admissible example_run NewHub"
    by (simp add: example_run_def play_frame_def hub_eval)
  from hub_invariant [OF adm] obtain h where
    run: "run example_run NewHub = Inr h"
    and live: "\<forall>c \<in> dom (Clients h). heap h c \<noteq> None \<and> \<not> is_closed h c"
    and next_step: "\<forall>a. enabled a h \<longrightarrow> (\<exists>h'. step a h = Inr h' \<and>
            (\<forall>c \<in> dom (Clients h'). heap h' c \<noteq> None \<and> \<not> is_closed h' c) \<and>
            (\<forall>c. \<not> is_closed h c \<and> is_closed h' c \<longrightarrow>
                 c \<in> dom (Clients h) \<and> c \<notin> dom (Clients h')))"
    by (elim exE conjE) (rule that)
  have reg: "Clients h 1 = Some True"
    using run by (auto simp: example_run_def play_frame_def hub_eval)
  then have "1 \<in> dom (Clients h)" by auto
  then have l1: "heap h 1 \<noteq> None" "\<not> is_closed h 1" using live by auto
  then have en: "enabled (Disconnect 1) h" by simp
  then have "\<exists>h'. step (Disconnect 1) h = Inr h'" using next_step by blast
  then have "\<not> isl (step (Disconnect 1) h)" by auto
  then show ?thesis using adm run reg l1 en by simp
qed

text \<open>
  C10. Register is idempotent. Serving \<open>Register c\<close> for a client that is already a key
  of the registry never fails, leaves the key set and the heap (so every queue and every
  closed flag) as they were, and serving it once more changes nothing; when the key
  maps to \<^verbatim>\<open>true\<close>, as every key the program stores does, the state is unchanged.
\<close>

theorem Register_idempotent:
  assumes "c \<in> dom (Clients h)"
  shows "\<exists>h'. Run order (Register c) h = Inr h' \<and> dom (Clients h') = dom (Clients h) \<and>
           heap h' = heap h \<and> (\<forall>d. queue h' d = queue h d \<and> is_closed h' d = is_closed h d) \<and>
           Run order (Register c) h' = Inr h' \<and>
           (Clients h c = Some True \<longrightarrow> h' = h)"
proof -
  define h' where "h' = h\<lparr>Clients := (Clients h)(c \<mapsto> True)\<rparr>"
  have "Run order (Register c) h = Inr h'" by (simp add: h'_def)
  moreover have "dom (Clients h') = dom (Clients h)" using assms by (auto simp: h'_def)
  moreover have "heap h' = heap h" by (simp add: h'_def)
  moreover have "Run order (Register c) h' = Inr h'" by (simp add: h'_def)
  moreover have "h' = h" if "Clients h c = Some True"
    using that by (simp add: h'_def map_upd_triv)
  ultimately show ?thesis
    by (intro exI [of _ h']) (simp add: queue_def is_closed_def)
qed

theorem Register_idempotent_witness:
  "1 \<in> dom (Clients hub_two) \<and> Run [] (Register 1) hub_two = Inr hub_two"
proof -
  have d: "1 \<in> dom (Clients hub_two)" by (simp add: hub_two_def)
  have t: "Clients hub_two 1 = Some True" by (simp add: hub_two_def)
  from Register_idempotent [OF d, of "[]"] t d show ?thesis by auto
qed

end
